theory Spec2Isabelle
  imports Main "HOL-Library.Word"
begin

unbundle bit_operations_syntax

section \<open>Machine types and constants\<close>

text \<open>
  \<^verbatim>\<open>block_t\<close> is \<^verbatim>\<open>unsigned long long\<close> (device.hpp); \<^verbatim>\<open>unsigned int\<close> is 32 bits wide and
  \<^verbatim>\<open>uint8_t\<close> is a byte.  Arithmetic on words wraps around, as the C arithmetic on
  unsigned types does.
\<close>

type_synonym u8 = "8 word"
type_synonym u32 = "32 word"
type_synonym block_t = "64 word"

definition MBR_LEN :: nat where
  "MBR_LEN = 512"

definition MBR_SECTOR_SIZE :: block_t where
  "MBR_SECTOR_SIZE = 512"

definition CHS_NUMSECTORS :: block_t where
  "CHS_NUMSECTORS = 63"

definition CHS_NUMHEADS :: block_t where
  "CHS_NUMHEADS = 16"

definition MBR_MIN_PART_SIZE :: block_t where
  "MBR_MIN_PART_SIZE = 16 * 1048576 div MBR_SECTOR_SIZE"

definition MBR_PTYPE_GOOD :: u8 where
  "MBR_PTYPE_GOOD = 0x0C"

definition MBR_PTYPE_BAD :: u8 where
  "MBR_PTYPE_BAD = 0xFF"

section \<open>The partition table codec (device.cpp)\<close>

text \<open>
  A \<^verbatim>\<open>uint8_t *\<close> into the MBR buffer is a buffer together with an offset; a store through
  the pointer is a list update at that offset.
\<close>

definition store32le :: "u8 list \<Rightarrow> nat \<Rightarrow> u32 \<Rightarrow> u8 list" where
  "store32le dest off val =
     dest[off := ucast (val AND 0xFF),
          off + 1 := ucast (drop_bit 8 val AND 0xFF),
          off + 2 := ucast (drop_bit 16 val AND 0xFF),
          off + 3 := ucast (drop_bit 24 val AND 0xFF)]"

definition lba2chs :: "block_t \<Rightarrow> u8 list \<Rightarrow> nat \<Rightarrow> u8 list" where
  "lba2chs lba chs off =
     (let cyls = (ucast (lba div (CHS_NUMSECTORS * CHS_NUMHEADS)) :: u32);
          heads = (ucast ((lba div CHS_NUMSECTORS) mod CHS_NUMHEADS) :: u32);
          sectors = (ucast ((lba mod CHS_NUMSECTORS) + 1) :: u32)
      in chs[off := ucast heads,
             off + 1 := ucast (drop_bit 2 (cyls AND 0x300) OR sectors),
             off + 2 := ucast (cyls AND 0xFF)])"

definition writeEntry :: "u8 list \<Rightarrow> nat \<Rightarrow> block_t \<Rightarrow> block_t \<Rightarrow> u8 \<Rightarrow> u8 list" where
  "writeEntry mbr index start end type =
     (let part = 0x1BE + index * 16;
          mbr1 = lba2chs start mbr (part + 0x1);
          mbr2 = lba2chs end mbr1 (part + 0x5);
          mbr3 = mbr2[part + 0x4 := type];
          mbr4 = store32le mbr3 (part + 0x8) (ucast start)
      in store32le mbr4 (part + 0xc) (ucast (end - start + 1)))"

text \<open>
  \<^verbatim>\<open>Device::writePartitionTable\<close>.  The value of \<^verbatim>\<open>random()\<close> is the parameter
  \<open>serial\<close>; the host stores it in its own byte order, taken to be little-endian here.
  The state threaded through the three conditionals is the buffer and \<^verbatim>\<open>partNum\<close>.
  The result is the buffer handed to \<^verbatim>\<open>this->write(mbr, MBR_LEN)\<close> at offset 0, with the
  final value of \<^verbatim>\<open>partNum\<close>.
\<close>

definition writePartitionTable :: "u32 \<Rightarrow> block_t \<Rightarrow> block_t \<Rightarrow> block_t \<Rightarrow> u8 list \<times> nat" where
  "writePartitionTable serial firstBad lastBad devsize =
     (let mbr0 = store32le (replicate MBR_LEN 0) 0x1B8 serial;
          start = firstBad div MBR_SECTOR_SIZE;
          end = (lastBad + 1) div MBR_SECTOR_SIZE;
          num = devsize div MBR_SECTOR_SIZE;
          partNum0 = (0 :: nat);
          (mbr1, partNum1) =
             (if start > MBR_MIN_PART_SIZE
              then (writeEntry mbr0 partNum0 0 start MBR_PTYPE_GOOD, partNum0 + 1)
              else (mbr0, partNum0));
          (mbr2, partNum2) =
             (if start \<noteq> 0 \<and> end \<noteq> 0
              then (writeEntry mbr1 partNum1 start end MBR_PTYPE_BAD, partNum1 + 1)
              else (mbr1, partNum1));
          (mbr3, partNum3) =
             (if end < num - MBR_MIN_PART_SIZE
              then (writeEntry mbr2 partNum2 end num MBR_PTYPE_GOOD, partNum2 + 1)
              else (mbr2, partNum2))
      in (mbr3[0x1FE := 0x55, 0x1FF := 0xAA], partNum3))"

text \<open>
  The calls of \<^verbatim>\<open>writeEntry\<close> that \<^verbatim>\<open>writePartitionTable\<close> makes, in order, each as
  (start, end, type): the same three conditionals, without the buffer.
\<close>

definition emittedEntries :: "block_t \<Rightarrow> block_t \<Rightarrow> block_t \<Rightarrow> (block_t \<times> block_t \<times> u8) list" where
  "emittedEntries firstBad lastBad devsize =
     (let start = firstBad div MBR_SECTOR_SIZE;
          end = (lastBad + 1) div MBR_SECTOR_SIZE;
          num = devsize div MBR_SECTOR_SIZE
      in (if start > MBR_MIN_PART_SIZE then [(0, start, MBR_PTYPE_GOOD)] else []) @
         (if start \<noteq> 0 \<and> end \<noteq> 0 then [(start, end, MBR_PTYPE_BAD)] else []) @
         (if end < num - MBR_MIN_PART_SIZE then [(end, num, MBR_PTYPE_GOOD)] else []))"

text \<open>
  Slot \<open>i\<close> of the partition table: the sixteen bytes at offset \<open>0x1BE + 16 * i\<close> of a
  buffer, the region \<^verbatim>\<open>&mbr[0x1BE + index * 16]\<close> that \<^verbatim>\<open>writeEntry\<close> addresses.
\<close>

definition slot :: "u8 list \<Rightarrow> nat \<Rightarrow> u8 list" where
  "slot mbr i = take 16 (drop (0x1BE + i * 16) mbr)"

text \<open>
  The sixteen bytes that \<^verbatim>\<open>writeEntry\<close> leaves in a slot of the zeroed buffer (computed
  with slot 0).
\<close>

definition entryImage :: "block_t \<Rightarrow> block_t \<Rightarrow> u8 \<Rightarrow> u8 list" where
  "entryImage start end type =
     take 16 (drop 0x1BE (writeEntry (replicate MBR_LEN 0) 0 start end type))"

text \<open>Successive calls of \<^verbatim>\<open>writeEntry\<close> with \<^verbatim>\<open>partNum++\<close>, from slot \<open>k\<close> on.\<close>

fun writeEntries :: "u8 list \<Rightarrow> nat \<Rightarrow> (block_t \<times> block_t \<times> u8) list \<Rightarrow> u8 list" where
  "writeEntries mbr k [] = mbr"
| "writeEntries mbr k ((s, e, t) # es) = writeEntries (writeEntry mbr k s e t) (k + 1) es"

section \<open>The verification pattern (check.cpp)\<close>

definition DATA_BLOCK_SIZE :: nat where
  "DATA_BLOCK_SIZE = 4096"

text \<open>
  The eight bytes of a \<^verbatim>\<open>block_t\<close> in memory, lowest address first.  The source copies the
  object representation with \<^verbatim>\<open>memcpy\<close>, so the order is the host's; it is taken to be
  little-endian here.
\<close>

definition block_bytes :: "block_t \<Rightarrow> u8 list" where
  "block_bytes w = map (\<lambda>k. ucast (drop_bit (8 * k) w)) [0..<8]"

text \<open>
  \<^verbatim>\<open>memcpy(&dest[off], src, n)\<close> with \<open>n = length src\<close>, for a destination that has room for
  the copy (\<open>off + n \<le> length dest\<close>).
\<close>

definition memcpy :: "u8 list \<Rightarrow> nat \<Rightarrow> u8 list \<Rightarrow> u8 list" where
  "memcpy dest off src = take off dest @ src @ drop (off + length src) dest"

text \<open>\<^verbatim>\<open>memcmp(a, b, n) == 0\<close>.\<close>

definition memcmp_eq :: "u8 list \<Rightarrow> u8 list \<Rightarrow> nat \<Rightarrow> bool" where
  "memcmp_eq a b n = (take n a = take n b)"

text \<open>
  The loop of \<^verbatim>\<open>prepareBuf\<close>: \<^verbatim>\<open>for (i = 0; i < len; i += sizeof(block_t))\<close>.  The counter
  is an \<^verbatim>\<open>unsigned int\<close> that stays below \<open>len + 8\<close>; every caller passes
  \<open>len = DATA_BLOCK_SIZE\<close>, so it is a natural number here.
\<close>

function prepareBuf_loop :: "u8 list \<Rightarrow> nat \<Rightarrow> nat \<Rightarrow> block_t \<Rightarrow> u8 list" where
  "prepareBuf_loop buf len i blockNum =
     (if i < len
      then prepareBuf_loop (memcpy buf i (block_bytes blockNum)) len (i + 8) blockNum
      else buf)"
  by pat_completeness auto
termination
  by (relation "measure (\<lambda>(buf, len, i, blockNum). len - i)") auto

definition prepareBuf :: "u8 list \<Rightarrow> nat \<Rightarrow> block_t \<Rightarrow> u8 list" where
  "prepareBuf buf len blockNum = prepareBuf_loop buf len 0 (blockNum + 1)"

section \<open>The verification engine (check.cpp)\<close>

text \<open>
  The class \<^verbatim>\<open>error\<close> carries a message.  A function that can raise returns \<open>error + 'a\<close>,
  with \<open>Inl\<close> for the exception.
\<close>

datatype error = Error string

text \<open>
  Everything the engine does to its collaborators is recorded as an event, in program
  order: the calls on the device, the calls on the \<^verbatim>\<open>CheckCallback\<close>, the extraction of
  a key from \<^verbatim>\<open>std::cin\<close> and the call of \<^verbatim>\<open>writePartitionTable\<close>.  \<open>DevRead b\<close> and
  \<open>DevWrite b\<close> stand for the \<^verbatim>\<open>read\<close> and \<^verbatim>\<open>write\<close> of \<open>DATA_BLOCK_SIZE\<close> bytes issued for
  block \<open>b\<close>.  The two call sites of \<^verbatim>\<open>writePartitionTable\<close> in \<^verbatim>\<open>Check::read\<close> are told
  apart by a tag.
\<close>

datatype call_site = BadFound | AllGood

datatype event =
    DevSeek block_t
  | DevRead block_t
  | DevWrite block_t
  | DevSync
  | DevClose
  | DevReopen
  | ResumeWrite
  | WriteStart block_t block_t
  | WriteProgress block_t
  | WriteFinish
  | ReadStart block_t block_t
  | ReadProgress block_t bool
  | ReadFinish
  | CinKey
  | WritePartitionTable call_site block_t block_t block_t
  | DevWriteMBR "u8 list"

text \<open>
  The collaborators, as the engine sees them.  The device behaves as \<^verbatim>\<open>POSIXDevice\<close>
  does: \<^verbatim>\<open>seek\<close> and \<^verbatim>\<open>close\<close> never raise; \<^verbatim>\<open>read\<close>, \<^verbatim>\<open>write\<close>, \<^verbatim>\<open>sync\<close> and \<^verbatim>\<open>reopen\<close>
  raise on failure.  \<open>dev_read b\<close> is the outcome of the read issued for block \<open>b\<close>: the
  exception, or the contents of the buffer after the call.  \<open>dev_reopen i\<close> is the outcome
  of the \<open>i\<close>-th call of \<^verbatim>\<open>reopen\<close>.  \<open>cin_keys i\<close> is what the \<open>i\<close>-th \<^verbatim>\<open>std::cin >> key\<close> of
  the recovery loop extracts: a character, or nothing when the input has ended and the
  extraction fails.  \<open>random_value\<close> is what \<^verbatim>\<open>random()\<close> returns.
\<close>

record env =
  dev_read :: "block_t \<Rightarrow> error + u8 list"
  dev_write :: "block_t \<Rightarrow> error + unit"
  dev_write_mbr :: "error + unit"
  dev_sync :: "error + unit"
  dev_reopen :: "nat \<Rightarrow> error + unit"
  cb_resumeWrite :: bool
  cb_readProgress :: "block_t \<Rightarrow> bool \<Rightarrow> bool"
  cin_keys :: "nat \<Rightarrow> char option"
  random_value :: u32

type_synonym 'a run = "event list \<times> (error + 'a)"

text \<open>The events \<open>evs\<close>, then the run \<open>r\<close>.\<close>

definition emit :: "event list \<Rightarrow> 'a run \<Rightarrow> 'a run" where
  "emit evs r = (evs @ fst r, snd r)"

text \<open>Sequencing: an exception in the first run ends the whole run.\<close>

definition bind_run :: "'a run \<Rightarrow> ('a \<Rightarrow> 'b run) \<Rightarrow> 'b run" where
  "bind_run m f =
     (case snd m of
        Inl e \<Rightarrow> (fst m, Inl e)
      | Inr x \<Rightarrow> emit (fst m) (f x))"

text \<open>
  The pattern of block \<open>b\<close>: \<^verbatim>\<open>prepareBuf(origBuf, DATA_BLOCK_SIZE, b)\<close>.  The stack buffer
  is not initialised in the source; its previous contents do not reach the result
  (lemma \<open>prepareBuf_tiles\<close>), so zeros stand for them.
\<close>

definition pattern :: "block_t \<Rightarrow> u8 list" where
  "pattern b = prepareBuf (replicate DATA_BLOCK_SIZE 0) DATA_BLOCK_SIZE b"

definition block_matches :: "u8 list \<Rightarrow> block_t \<Rightarrow> bool" where
  "block_matches buf b = memcmp_eq (pattern b) buf DATA_BLOCK_SIZE"

subsection \<open>\<^verbatim>\<open>Check::write\<close>\<close>

text \<open>
  The resume search, \<^verbatim>\<open>while (remainingBlocks > 1)\<close>: the state is \<^verbatim>\<open>remainingBlocks\<close> and
  \<^verbatim>\<open>startBlock\<close>, the result the final \<^verbatim>\<open>startBlock\<close>.  (\<^verbatim>\<open>numLoops\<close> and \<^verbatim>\<open>i\<close> are only
  printed.)
\<close>

function resume_loop :: "env \<Rightarrow> block_t \<Rightarrow> block_t \<Rightarrow> block_t run" where
  "resume_loop env remainingBlocks startBlock =
     (if remainingBlocks > 1
      then (case dev_read env startBlock of
              Inl e \<Rightarrow> ([DevSeek (startBlock * of_nat DATA_BLOCK_SIZE), DevRead startBlock], Inl e)
            | Inr buf \<Rightarrow>
                emit [DevSeek (startBlock * of_nat DATA_BLOCK_SIZE), DevRead startBlock]
                  (resume_loop env (remainingBlocks div 2)
                     (if block_matches buf startBlock
                      then startBlock + remainingBlocks div 2
                      else startBlock - remainingBlocks div 2)))
      else ([], Inr startBlock))"
  by pat_completeness auto
termination
proof (relation "measure (\<lambda>(env, remainingBlocks, startBlock). unat remainingBlocks)")
  show "wf (measure (\<lambda>(env, remainingBlocks, startBlock). unat remainingBlocks))"
    by simp
next
  fix env :: env and remainingBlocks startBlock :: block_t and buf :: "u8 list"
  assume "1 < remainingBlocks"
  then have "0 < unat remainingBlocks"
    by (simp add: word_less_nat_alt)
  then have "unat remainingBlocks div 2 < unat remainingBlocks"
    by simp
  then show "((env, remainingBlocks div 2,
       if block_matches buf startBlock then startBlock + remainingBlocks div 2
       else startBlock - remainingBlocks div 2), env, remainingBlocks, startBlock)
      \<in> measure (\<lambda>(env, remainingBlocks, startBlock). unat remainingBlocks)"
    by (simp add: unat_div)
qed

text \<open>\<^verbatim>\<open>for (block_t b = startBlock; b < numBlocks; b++)\<close> of the write pass.\<close>

function write_loop :: "env \<Rightarrow> block_t \<Rightarrow> block_t \<Rightarrow> unit run" where
  "write_loop env numBlocks b =
     (if b < numBlocks
      then (case dev_write env b of
              Inl e \<Rightarrow> ((if b mod 256 = 0 then [WriteProgress b] else []) @ [DevWrite b], Inl e)
            | Inr u \<Rightarrow>
                emit ((if b mod 256 = 0 then [WriteProgress b] else []) @ [DevWrite b])
                  (write_loop env numBlocks (b + 1)))
      else ([], Inr ()))"
  by pat_completeness auto
termination
proof (relation "measure (\<lambda>(env, numBlocks, b). unat numBlocks - unat b)")
  show "wf (measure (\<lambda>(env, numBlocks, b). unat numBlocks - unat b))"
    by simp
next
  fix env :: env and numBlocks b :: block_t
  assume lt: "b < numBlocks"
  then have "unat b < unat numBlocks"
    by (simp add: word_less_nat_alt)
  moreover have "1 + b \<noteq> 0"
    using lt by (metis add.right_inverse add_left_cancel linorder_not_less word_order.extremum)
  then have "unat (b + 1) = Suc (unat b)"
    using unatSuc [of b] by (simp add: add.commute)
  ultimately show "((env, numBlocks, b + 1), env, numBlocks, b)
      \<in> measure (\<lambda>(env, numBlocks, b). unat numBlocks - unat b)"
    by simp
qed

text \<open>
  The recovery loop after a failed \<^verbatim>\<open>sync\<close>, \<^verbatim>\<open>for (;;)\<close>, from its \<open>i\<close>-th round on.  Each
  round sets \<^verbatim>\<open>key = 'n'\<close>, extracts a key and, on \<^verbatim>\<open>y\<close> or \<^verbatim>\<open>Y\<close>, calls \<^verbatim>\<open>reopen()\<close>.  Nothing
  bounds the number of rounds, so the loop is a partial function: \<open>None\<close> is the run that
  never leaves it.
\<close>

partial_function (option) reopen_loop :: "env \<Rightarrow> nat \<Rightarrow> unit run option" where
  "reopen_loop env i =
     (let key = (case cin_keys env i of None \<Rightarrow> CHR ''n'' | Some c \<Rightarrow> c)
      in if key \<noteq> CHR ''y'' \<and> key \<noteq> CHR ''Y''
         then Some ([CinKey], Inl (Error ''Aborted by user''))
         else (case dev_reopen env i of
                 Inr u \<Rightarrow> Some ([CinKey, DevReopen], Inr ())
               | Inl e \<Rightarrow>
                   Option.bind (reopen_loop env (i + 1))
                     (\<lambda>r. Some (emit [CinKey, DevReopen] r))))"

text \<open>
  \<^verbatim>\<open>Check::write\<close> up to \<^verbatim>\<open>writeFinish()\<close>: the resume check, the resume search and the
  write loop.
\<close>

definition write_pass :: "env \<Rightarrow> block_t \<Rightarrow> unit run" where
  "write_pass env numBlocks =
     (case dev_read env 0 of
        Inl e \<Rightarrow> ([DevSeek 0, DevRead 0], Inl e)
      | Inr buf \<Rightarrow>
          bind_run
            (emit [DevSeek 0, DevRead 0]
               (if block_matches buf 0
                then (if cb_resumeWrite env
                      then emit [ResumeWrite] (resume_loop env (numBlocks div 2) (numBlocks div 2))
                      else ([ResumeWrite], Inr 0))
                else ([], Inr 0)))
            (\<lambda>startBlock.
               bind_run
                 (emit [DevSeek (startBlock * of_nat DATA_BLOCK_SIZE), WriteStart startBlock numBlocks]
                    (write_loop env numBlocks startBlock))
                 (\<lambda>u. ([WriteProgress (numBlocks - 1), WriteFinish], Inr ()))))"

text \<open>The rest of \<^verbatim>\<open>Check::write\<close>: \<^verbatim>\<open>sync()\<close> and its handler.\<close>

definition sync_recover :: "env \<Rightarrow> unit run option" where
  "sync_recover env =
     (case dev_sync env of
        Inr u \<Rightarrow> Some ([DevSync], Inr ())
      | Inl e \<Rightarrow> Option.bind (reopen_loop env 0) (\<lambda>r. Some (emit [DevSync, DevClose] r)))"

definition Check_write :: "env \<Rightarrow> block_t \<Rightarrow> unit run option" where
  "Check_write env numBlocks =
     (case snd (write_pass env numBlocks) of
        Inl e \<Rightarrow> Some (write_pass env numBlocks)
      | Inr u \<Rightarrow>
          Option.bind (sync_recover env) (\<lambda>r. Some (emit (fst (write_pass env numBlocks)) r)))"

subsection \<open>\<^verbatim>\<open>Check::read\<close>\<close>

record rstate =
  firstBad :: bool
  firstBadBlock :: block_t
  lastBadBlock :: block_t
  fail :: bool

text \<open>\<^verbatim>\<open>if (!firstBad) { firstBadBlock = b; firstBad = true; } lastBadBlock = b;\<close>\<close>

definition markBad :: "block_t \<Rightarrow> rstate \<Rightarrow> rstate" where
  "markBad b st =
     (if \<not> firstBad st
      then st\<lparr>firstBadBlock := b, firstBad := True, lastBadBlock := b\<rparr>
      else st\<lparr>lastBadBlock := b\<rparr>)"

text \<open>The \<^verbatim>\<open>try\<close> block of one iteration and its handler.\<close>

definition read_block :: "env \<Rightarrow> block_t \<Rightarrow> rstate \<Rightarrow> rstate" where
  "read_block env b st =
     (case dev_read env b of
        Inr buf \<Rightarrow>
          (if \<not> block_matches buf b then markBad b (st\<lparr>fail := False\<rparr>) else st\<lparr>fail := False\<rparr>)
      | Inl e \<Rightarrow> (markBad b st)\<lparr>fail := True\<rparr>)"

function read_loop :: "env \<Rightarrow> block_t \<Rightarrow> block_t \<Rightarrow> rstate \<Rightarrow> rstate run" where
  "read_loop env numBlocks b st =
     (if b < numBlocks
      then (if b mod 256 = 0 \<or> fail (read_block env b st)
            then (if cb_readProgress env b (fail (read_block env b st))
                  then emit [DevRead b, ReadProgress b (fail (read_block env b st))]
                         (read_loop env numBlocks (b + 1) (read_block env b st))
                  else ([DevRead b, ReadProgress b (fail (read_block env b st))],
                        Inl (Error ''Verification operation aborted'')))
            else emit [DevRead b] (read_loop env numBlocks (b + 1) (read_block env b st)))
      else ([], Inr st))"
  by pat_completeness auto
termination
proof (relation "measure (\<lambda>(env, numBlocks, b, st). unat numBlocks - unat b)")
  show "wf (measure (\<lambda>(env, numBlocks, b, st). unat numBlocks - unat b))"
    by simp
next
  fix env :: env and numBlocks b :: block_t and st :: rstate
  assume lt: "b < numBlocks"
  then have "unat b < unat numBlocks"
    by (simp add: word_less_nat_alt)
  moreover have "1 + b \<noteq> 0"
    using lt by (metis add.right_inverse add_left_cancel linorder_not_less word_order.extremum)
  then have "unat (b + 1) = Suc (unat b)"
    using unatSuc [of b] by (simp add: add.commute)
  ultimately show "((env, numBlocks, b + 1, read_block env b st), env, numBlocks, b, st)
      \<in> measure (\<lambda>(env, numBlocks, b, st). unat numBlocks - unat b)"
    by simp
next
  fix env :: env and numBlocks b :: block_t and st :: rstate
  assume lt: "b < numBlocks"
  then have "unat b < unat numBlocks"
    by (simp add: word_less_nat_alt)
  moreover have "1 + b \<noteq> 0"
    using lt by (metis add.right_inverse add_left_cancel linorder_not_less word_order.extremum)
  then have "unat (b + 1) = Suc (unat b)"
    using unatSuc [of b] by (simp add: add.commute)
  ultimately show "((env, numBlocks, b + 1, read_block env b st), env, numBlocks, b, st)
      \<in> measure (\<lambda>(env, numBlocks, b, st). unat numBlocks - unat b)"
    by simp
qed

text \<open>
  \<^verbatim>\<open>Device::writePartitionTable\<close> as a call on the device: the image is computed, then
  \<^verbatim>\<open>seek(0)\<close> and \<^verbatim>\<open>write(mbr, MBR_LEN)\<close>.
\<close>

definition Device_writePartitionTable ::
    "env \<Rightarrow> call_site \<Rightarrow> block_t \<Rightarrow> block_t \<Rightarrow> block_t \<Rightarrow> unit run" where
  "Device_writePartitionTable env site fb lb devsize =
     ([WritePartitionTable site fb lb devsize, DevSeek 0,
       DevWriteMBR (fst (writePartitionTable (random_value env) fb lb devsize))],
      dev_write_mbr env)"

text \<open>The locals of \<^verbatim>\<open>Check::read\<close> as they are initialised.\<close>

definition initial_rstate :: rstate where
  "initial_rstate = \<lparr>firstBad = False, firstBadBlock = 0, lastBadBlock = 0, fail = False\<rparr>"

definition Check_read :: "env \<Rightarrow> block_t \<Rightarrow> unit run" where
  "Check_read env numBlocks =
     bind_run
       (emit [DevSeek 0, ReadStart 0 numBlocks]
          (read_loop env numBlocks 0 initial_rstate))
       (\<lambda>st.
          emit ((if \<not> fail st then [ReadProgress (numBlocks - 1) True] else []) @ [ReadFinish])
            (if firstBad st
             then Device_writePartitionTable env BadFound
                    (firstBadBlock st * of_nat DATA_BLOCK_SIZE)
                    ((lastBadBlock st + 1) * of_nat DATA_BLOCK_SIZE - 1)
                    (numBlocks * of_nat DATA_BLOCK_SIZE)
             else Device_writePartitionTable env AllGood 0 0
                    (numBlocks * of_nat DATA_BLOCK_SIZE)))"

text \<open>\<^verbatim>\<open>Check::Check\<close>: the number of blocks of a device of \<open>len\<close> bytes.\<close>

definition numBlocks_of :: "block_t \<Rightarrow> block_t" where
  "numBlocks_of len = len div of_nat DATA_BLOCK_SIZE"

text \<open>
  \<^verbatim>\<open>main\<close> after the device is open and the user has agreed: \<^verbatim>\<open>chk->write()\<close>, then
  \<^verbatim>\<open>chk->read()\<close>.  The device answers the read pass as \<open>env'\<close>.
\<close>

definition scan :: "env \<Rightarrow> env \<Rightarrow> block_t \<Rightarrow> unit run option" where
  "scan env env' len =
     Option.bind (Check_write env (numBlocks_of len))
       (\<lambda>w. Some (bind_run w (\<lambda>u. Check_read env' (numBlocks_of len))))"

subsection \<open>Observations on runs\<close>

text \<open>Whether the read issued for block \<open>b\<close> raises, and whether the read loop records \<open>b\<close> as bad.\<close>

definition read_failed :: "env \<Rightarrow> block_t \<Rightarrow> bool" where
  "read_failed env b = (case dev_read env b of Inl e \<Rightarrow> True | Inr buf \<Rightarrow> False)"

definition bad_block :: "env \<Rightarrow> block_t \<Rightarrow> bool" where
  "bad_block env b = (case dev_read env b of Inl e \<Rightarrow> True | Inr buf \<Rightarrow> \<not> block_matches buf b)"

text \<open>The calls of \<^verbatim>\<open>writePartitionTable\<close> in a trace, and the blocks written in it.\<close>

fun partition_calls :: "event list \<Rightarrow> (call_site \<times> block_t \<times> block_t \<times> block_t) list" where
  "partition_calls [] = []"
| "partition_calls (WritePartitionTable site fb lb devsize # tr) =
     (site, fb, lb, devsize) # partition_calls tr"
| "partition_calls (ev # tr) = partition_calls tr"

fun written_blocks :: "event list \<Rightarrow> block_t list" where
  "written_blocks [] = []"
| "written_blocks (DevWrite b # tr) = b # written_blocks tr"
| "written_blocks (ev # tr) = written_blocks tr"

subsection \<open>Test devices\<close>

text \<open>
  A device after an interrupted write pass: the blocks below \<open>k\<close> hold their pattern, every
  other block holds the pattern of its successor, so it does not match.  All operations
  succeed and the user agrees to resume.
\<close>

definition interrupted_env :: "block_t \<Rightarrow> env" where
  "interrupted_env k =
     \<lparr>dev_read = (\<lambda>b. Inr (if b < k then pattern b else pattern (b + 1))),
      dev_write = (\<lambda>b. Inr ()),
      dev_write_mbr = Inr (),
      dev_sync = Inr (),
      dev_reopen = (\<lambda>i. Inr ()),
      cb_resumeWrite = True,
      cb_readProgress = (\<lambda>b f. True),
      cin_keys = (\<lambda>i. None),
      random_value = 0\<rparr>"

text \<open>
  A device that reads back every pattern, with a callback that answers false exactly to
  the reports flagged as failures.
\<close>

definition good_env :: env where
  "good_env =
     \<lparr>dev_read = (\<lambda>b. Inr (pattern b)),
      dev_write = (\<lambda>b. Inr ()),
      dev_write_mbr = Inr (),
      dev_sync = Inr (),
      dev_reopen = (\<lambda>i. Inr ()),
      cb_resumeWrite = False,
      cb_readProgress = (\<lambda>b f. \<not> f),
      cin_keys = (\<lambda>i. None),
      random_value = 0\<rparr>"

text \<open>
  A device whose \<^verbatim>\<open>sync\<close> fails and whose first \<^verbatim>\<open>reopen\<close> fails, with a user who types
  \<^verbatim>\<open>y\<close> and \<^verbatim>\<open>Y\<close>; its block 1 cannot be read.
\<close>

definition faulty_env :: env where
  "faulty_env =
     \<lparr>dev_read = (\<lambda>b. if b = 1 then Inl (Error ''Input/output error'') else Inr (pattern b)),
      dev_write = (\<lambda>b. Inr ()),
      dev_write_mbr = Inr (),
      dev_sync = Inl (Error ''Input/output error''),
      dev_reopen = (\<lambda>i. if i = 0 then Inl (Error ''No such device'') else Inr ()),
      cb_resumeWrite = False,
      cb_readProgress = (\<lambda>b f. \<not> f),
      cin_keys = (\<lambda>i. if i = 0 then Some (CHR ''y'') else if i = 1 then Some (CHR ''Y'') else None),
      random_value = 0\<rparr>"

section \<open>Properties of the CHS conversion\<close>

lemma ucast_u32_u8_and_ff:
  "(ucast ((ucast (x :: block_t) :: u32) AND 0xFF) :: u8) = ucast (x AND 0xFF)"
  by (rule bit_word_eqI) (auto simp: bit_simps)

lemma ucast_u32_u8: "(ucast (ucast (x :: block_t) :: u32) :: u8) = ucast x"
  by (rule bit_word_eqI) (auto simp: bit_simps)

lemma ucast_pack:
  "(ucast (drop_bit 2 ((ucast (c :: block_t) :: u32) AND 0x300) OR (ucast (s :: block_t) :: u32)) :: u8)
     = ucast (drop_bit 2 (c AND 0x300) OR s)"
  by (rule bit_word_eqI) (auto simp: bit_simps)

text \<open>The detour through \<^verbatim>\<open>unsigned int\<close> loses nothing that reaches the three bytes.\<close>

lemma lba2chs_words:
  "lba2chs lba chs off =
     (let cylinder = lba div (63 * 16);
          head = (lba div 63) mod 16;
          sector = (lba mod 63) + 1
      in chs[off := ucast head,
             off + 1 := ucast (drop_bit 2 (cylinder AND 0x300) OR sector),
             off + 2 := ucast (cylinder AND 0xFF)])"
  unfolding lba2chs_def Let_def CHS_NUMSECTORS_def CHS_NUMHEADS_def
  by (simp only: ucast_u32_u8_and_ff ucast_u32_u8 ucast_pack)

lemma unat_cyl: "unat ((lba :: block_t) div (63 * 16)) = unat lba div (63 * 16)"
  by (simp add: unat_div)

lemma unat_head: "unat (((lba :: block_t) div 63) mod 16) = (unat lba div 63) mod 16"
  by (simp add: unat_div unat_mod)

lemma unat_sector: "unat (((lba :: block_t) mod 63) + 1) = unat lba mod 63 + 1"
  by (simp add: unat_mod unat_word_ariths)

lemma of_nat_unat_ucast: "(of_nat (unat (x :: block_t)) :: u8) = ucast x"
  by (rule bit_word_eqI) (auto simp: bit_simps)

lemma of_nat_pack:
  "(of_nat (drop_bit 2 (unat (c :: block_t) AND 0x300) OR unat (s :: block_t)) :: u8)
     = ucast (drop_bit 2 (c AND 0x300) OR s)"
proof -
  have "unat (drop_bit 2 (c AND 0x300) OR s) = drop_bit 2 (unat c AND 0x300) OR unat s"
    by (simp add: unsigned_or_eq unsigned_and_eq unat_drop_bit_eq)
  then show ?thesis
    by (simp only: of_nat_unat_ucast [symmetric])
qed

lemma of_nat_ff: "(of_nat (unat (c :: block_t) AND 0xFF) :: u8) = ucast (c AND 0xFF)"
proof -
  have "unat (c AND 0xFF) = unat c AND 0xFF"
    by (simp add: unsigned_and_eq)
  then show ?thesis
    by (simp only: of_nat_unat_ucast [symmetric])
qed

lemma lba2chs_nat:
  "lba2chs lba chs off =
     (let cylinder = unat lba div (63 * 16);
          head = (unat lba div 63) mod 16;
          sector = (unat lba mod 63) + 1
      in chs[off := of_nat head,
             off + 1 := of_nat (drop_bit 2 (cylinder AND 0x300) OR sector),
             off + 2 := of_nat (cylinder AND 0xFF)])"
  unfolding lba2chs_words Let_def
  unfolding unat_cyl [symmetric] unat_head [symmetric] unat_sector [symmetric]
    of_nat_pack of_nat_ff
  by simp

text \<open>
  C6.  For every 64-bit LBA, the three bytes that \<^verbatim>\<open>lba2chs\<close> stores at \<open>off\<close> are the head,
  the sector combined with bits 8 and 9 of the cylinder shifted down by two, and the low
  byte of the cylinder, where cylinder = lba / (63 * 16), head = (lba / 63) mod 16 and
  sector = (lba mod 63) + 1 in the natural numbers.  LBA 0 yields the bytes 0, 1, 0 (head 0,
  sector 1, cylinder 0) and LBA 63 the bytes 1, 1, 0 (head 1, sector 1, cylinder 0).
\<close>

theorem lba2chs_encoding:
  "lba2chs lba chs off =
     (let cylinder = unat lba div (63 * 16);
          head = (unat lba div 63) mod 16;
          sector = (unat lba mod 63) + 1
      in chs[off := of_nat head,
             off + 1 := of_nat (drop_bit 2 (cylinder AND 0x300) OR sector),
             off + 2 := of_nat (cylinder AND 0xFF)])
   \<and> lba2chs 0 [0, 0, 0] 0 = [0, 1, 0]
   \<and> lba2chs 63 [0, 0, 0] 0 = [1, 1, 0]"
proof -
  have "lba2chs 0 [0, 0, 0] 0 = [0, 1, 0]"
    by (simp add: lba2chs_def CHS_NUMSECTORS_def CHS_NUMHEADS_def)
  moreover have "lba2chs 63 [0, 0, 0] 0 = [1, 1, 0]"
    by (simp add: lba2chs_def CHS_NUMSECTORS_def CHS_NUMHEADS_def)
  ultimately show ?thesis
    using lba2chs_nat [of lba chs off] by simp
qed

section \<open>Properties of the partition table codec\<close>

lemma slice_update_inside:
  "take n (drop p (xs[p + k := v])) = (take n (drop p xs))[k := v]"
  by (simp add: drop_update_swap take_update_swap)

lemma slice_update_outside:
  "r < q \<or> q + n \<le> r \<Longrightarrow> take n (drop q (xs[r := v])) = take n (drop q xs)"
  by (cases "r < q") (simp_all add: drop_update_swap)

lemma length_store32le [simp]: "length (store32le d off v) = length d"
  by (simp add: store32le_def)

lemma length_lba2chs [simp]: "length (lba2chs lba chs off) = length chs"
  by (simp add: lba2chs_def Let_def)

lemma length_writeEntry [simp]: "length (writeEntry m i s e t) = length m"
  by (simp add: writeEntry_def Let_def)

lemma slice_store32le_inside:
  "take n (drop p (store32le d (p + k) v)) =
     store32le (take n (drop p d)) k v"
  unfolding store32le_def
  by (simp only: add.assoc slice_update_inside)

lemma slice_lba2chs_inside:
  "take n (drop p (lba2chs lba d (p + k))) = lba2chs lba (take n (drop p d)) k"
  unfolding lba2chs_def Let_def
  by (simp only: add.assoc slice_update_inside)

lemma slice_store32le_outside:
  "r + 4 \<le> q \<or> q + n \<le> r \<Longrightarrow> take n (drop q (store32le d r v)) = take n (drop q d)"
  unfolding store32le_def
  by (erule disjE) (simp_all add: slice_update_outside)

lemma slice_lba2chs_outside:
  "r + 3 \<le> q \<or> q + n \<le> r \<Longrightarrow> take n (drop q (lba2chs lba d r)) = take n (drop q d)"
  unfolding lba2chs_def Let_def
  by (erule disjE) (simp_all add: slice_update_outside)

lemma slice_writeEntry_outside:
  "q + n \<le> 0x1BE + i * 16 \<or> 0x1BE + i * 16 + 16 \<le> q \<Longrightarrow>
     take n (drop q (writeEntry m i s e t)) = take n (drop q m)"
  unfolding writeEntry_def Let_def
  by (erule disjE) (simp_all add: slice_update_outside slice_store32le_outside slice_lba2chs_outside)

lemma slot_writeEntry_same:
  "slot (writeEntry m i s e t) i =
     take 16 (drop 0x1BE (writeEntry (replicate 0x1BE 0 @ slot m i) 0 s e t))"
  unfolding writeEntry_def Let_def slot_def
  apply (simp only: slice_update_inside slice_store32le_inside slice_lba2chs_inside mult_zero_left add_0_right)
  apply simp
  done

lemma slice_update_from:
  "p \<le> r \<Longrightarrow> take n (drop p (xs[r := v])) = (take n (drop p xs))[r - p := v]"
  by (simp add: drop_update_swap take_update_swap)

lemma replicate16: "replicate 16 x = [x, x, x, x, x, x, x, x, x, x, x, x, x, x, x, x]"
  by (simp add: numeral_eq_Suc)

lemma slot_zero: "i < 4 \<Longrightarrow> slot (replicate MBR_LEN 0) i = replicate 16 0"
  by (simp add: slot_def MBR_LEN_def min_def)

lemma entryImage_bytes:
  "entryImage s e t =
     [0] @ take 3 (lba2chs s [0, 0, 0] 0) @ [t] @ take 3 (lba2chs e [0, 0, 0] 0) @
     store32le [0, 0, 0, 0] 0 (ucast s) @ store32le [0, 0, 0, 0] 0 (ucast (e - s + 1))"
  unfolding entryImage_def writeEntry_def Let_def MBR_LEN_def
  apply (simp add: lba2chs_def store32le_def Let_def slice_update_from replicate16)
  done

lemma slot_writeEntry_zero:
  assumes "slot m i = replicate 16 0"
  shows "slot (writeEntry m i s e t) i = entryImage s e t"
proof -
  have "entryImage s e t = slot (writeEntry (replicate MBR_LEN 0) 0 s e t) 0"
    by (simp add: entryImage_def slot_def)
  also have "\<dots> = take 16 (drop 0x1BE (writeEntry (replicate 0x1BE 0 @ slot (replicate MBR_LEN 0) 0) 0 s e t))"
    by (rule slot_writeEntry_same)
  also have "slot (replicate MBR_LEN 0) 0 = slot m i"
    using assms slot_zero [of 0] by simp
  finally show ?thesis
    by (simp only: slot_writeEntry_same)
qed

lemma slot_writeEntry_other:
  "i \<noteq> j \<Longrightarrow> slot (writeEntry m i s e t) j = slot m j"
  unfolding slot_def
  by (rule slice_writeEntry_outside) arith

lemma slot_writeEntries_outside:
  "j < k \<or> k + length es \<le> j \<Longrightarrow> slot (writeEntries m k es) j = slot m j"
proof (induction es arbitrary: m k)
  case Nil
  then show ?case by simp
next
  case (Cons x es)
  obtain s e t where x: "x = (s, e, t)" by (cases x)
  from Cons.prems have "j \<noteq> k" and "j < k + 1 \<or> k + 1 + length es \<le> j"
    by auto
  then show ?case
    using Cons.IH [of "k + 1" "writeEntry m k s e t"] x
    by (simp add: slot_writeEntry_other)
qed

lemma slot_writeEntries_inside:
  "i < length es \<Longrightarrow> slot m (k + i) = replicate 16 0 \<Longrightarrow>
     slot (writeEntries m k es) (k + i) = (case es ! i of (s, e, t) \<Rightarrow> entryImage s e t)"
proof (induction es arbitrary: m k i)
  case Nil
  then show ?case by simp
next
  case (Cons x es)
  obtain s e t where x: "x = (s, e, t)" by (cases x)
  show ?case
  proof (cases i)
    case 0
    have "slot (writeEntries (writeEntry m k s e t) (k + 1) es) k = slot (writeEntry m k s e t) k"
      by (rule slot_writeEntries_outside) simp
    with 0 x Cons.prems show ?thesis
      by (simp add: slot_writeEntry_zero)
  next
    case (Suc i')
    have "slot (writeEntry m k s e t) (k + 1 + i') = replicate 16 0"
      using Cons.prems Suc by (simp add: slot_writeEntry_other)
    moreover have "i' < length es"
      using Cons.prems Suc by simp
    ultimately show ?thesis
      using Cons.IH [of i' "writeEntry m k s e t" "k + 1"] Suc x by simp
  qed
qed

lemma writePartitionTable_writeEntries:
  "writePartitionTable serial firstBadByte lastBadByte devsize =
     ((writeEntries (store32le (replicate MBR_LEN 0) 0x1B8 serial) 0
         (emittedEntries firstBadByte lastBadByte devsize))[0x1FE := 0x55, 0x1FF := 0xAA],
      length (emittedEntries firstBadByte lastBadByte devsize))"
  by (simp add: writePartitionTable_def emittedEntries_def Let_def)

lemma length_writeEntries [simp]: "length (writeEntries m k es) = length m"
  by (induction es arbitrary: m k) auto

lemma length_emittedEntries: "length (emittedEntries firstBadByte lastBadByte devsize) \<le> 3"
  by (simp add: emittedEntries_def Let_def)


lemma slot_sig:
  "i < 4 \<Longrightarrow> slot (m[0x1FE := a, 0x1FF := b]) i = slot m i"
  unfolding slot_def by (simp add: slice_update_outside)

lemma slot_serial:
  "i < 4 \<Longrightarrow> slot (store32le (replicate MBR_LEN 0) 0x1B8 serial) i = replicate 16 0"
  unfolding slot_def by (simp add: slice_store32le_outside MBR_LEN_def min_def)

lemma mbr_slots:
  assumes "writePartitionTable serial firstBadByte lastBadByte devsize = (mbr, partNum)"
  shows "length mbr = 512" and "mbr ! 0x1FE = 0x55" and "mbr ! 0x1FF = 0xAA"
    and "partNum = length (emittedEntries firstBadByte lastBadByte devsize)"
    and "partNum \<le> 3"
    and "i < partNum \<Longrightarrow>
           slot mbr i = (case emittedEntries firstBadByte lastBadByte devsize ! i of (s, e, t) \<Rightarrow> entryImage s e t)"
    and "partNum \<le> i \<Longrightarrow> i < 4 \<Longrightarrow> slot mbr i = replicate 16 0"
proof -
  let ?es = "emittedEntries firstBadByte lastBadByte devsize"
  let ?m0 = "store32le (replicate MBR_LEN 0) 0x1B8 serial"
  from assms have mbr: "mbr = (writeEntries ?m0 0 ?es)[0x1FE := 0x55, 0x1FF := 0xAA]"
    and n: "partNum = length ?es"
    by (simp_all add: writePartitionTable_writeEntries)
  show "length mbr = 512" by (simp add: mbr MBR_LEN_def)
  show "mbr ! 0x1FE = 0x55" by (simp add: mbr MBR_LEN_def)
  show "mbr ! 0x1FF = 0xAA" by (simp add: mbr MBR_LEN_def)
  show "partNum = length ?es" by (rule n)
  show le3: "partNum \<le> 3" using n length_emittedEntries [of firstBadByte lastBadByte devsize] by simp
  show "slot mbr i = (case ?es ! i of (s, e, t) \<Rightarrow> entryImage s e t)" if "i < partNum"
  proof -
    have "i < 4" using that le3 by simp
    then have "slot mbr i = slot (writeEntries ?m0 0 ?es) i"
      by (simp add: mbr slot_sig)
    also have "\<dots> = (case ?es ! i of (s, e, t) \<Rightarrow> entryImage s e t)"
      using slot_writeEntries_inside [of i ?es ?m0 0] that n \<open>i < 4\<close>
      by (simp add: slot_serial)
    finally show ?thesis .
  qed
  show "slot mbr i = replicate 16 0" if "partNum \<le> i" "i < 4"
  proof -
    have "slot mbr i = slot (writeEntries ?m0 0 ?es) i"
      using that by (simp add: mbr slot_sig)
    also have "\<dots> = slot ?m0 i"
      using that n by (intro slot_writeEntries_outside) simp
    finally show ?thesis using that by (simp add: slot_serial)
  qed
qed

lemma scenario_entries:
  "emittedEntries 536870912 536871423 1073741824 =
     [(0, 1048576, MBR_PTYPE_GOOD), (1048576, 1048577, MBR_PTYPE_BAD), (1048577, 2097152, MBR_PTYPE_GOOD)]"
  by (simp add: emittedEntries_def Let_def MBR_SECTOR_SIZE_def MBR_MIN_PART_SIZE_def)

lemma scenario_bad_entry:
  "entryImage 1048576 1048577 MBR_PTYPE_BAD = [0, 4, 5, 16, 255, 4, 6, 16, 0, 0, 16, 0, 2, 0, 0, 0]"
  by (simp add: entryImage_bytes lba2chs_def store32le_def MBR_PTYPE_BAD_def CHS_NUMSECTORS_def
      CHS_NUMHEADS_def)

lemma allgood_entries:
  "32768 < devsize div 512 \<Longrightarrow> emittedEntries 0 0 devsize = [(0, devsize div 512, MBR_PTYPE_GOOD)]"
  by (simp add: emittedEntries_def Let_def MBR_SECTOR_SIZE_def MBR_MIN_PART_SIZE_def word_greater_zero_iff)

lemma div512_zero: "(x :: block_t) < 512 \<Longrightarrow> x div 512 = 0"
  by (simp add: div_word_less)

lemma div512_nonzero: "512 \<le> (x :: block_t) \<Longrightarrow> x div 512 \<noteq> 0"
proof
  assume le: "512 \<le> x" and "x div 512 = 0"
  then have "unat (x div 512) = 0" by simp
  then have "unat x div 512 = 0" by (simp add: unat_div)
  then have "unat x < 512" by simp
  moreover have "512 \<le> unat x" using le by (simp add: word_le_nat_alt)
  ultimately show False by simp
qed

lemma sector0_entries:
  "firstBadByte < 512 \<Longrightarrow>
     emittedEntries firstBadByte lastBadByte devsize =
       (if (lastBadByte + 1) div 512 < devsize div 512 - 32768
        then [((lastBadByte + 1) div 512, devsize div 512, MBR_PTYPE_GOOD)] else [])"
  by (simp add: emittedEntries_def Let_def MBR_SECTOR_SIZE_def MBR_MIN_PART_SIZE_def div512_zero)

lemma of_nat_mod_256: "(of_nat (n mod 256) :: u8) = of_nat n"
  by (simp add: word_unat_eq_iff unat_of_nat)

lemma le_byte:
  "k \<le> 24 \<Longrightarrow> (ucast (drop_bit k (ucast (x :: block_t) :: u32) AND 0xFF) :: u8) = of_nat (unat x div 2 ^ k mod 256)"
proof -
  assume k: "k \<le> 24"
  have ff: "(0xFF :: u32) = mask 8"
    by (simp add: mask_eq_exp_minus_1)
  have "(ucast (drop_bit k (ucast x :: u32) AND 0xFF) :: u8) = ucast (drop_bit k x)"
    unfolding ff using k by (intro bit_word_eqI) (auto simp: bit_simps)
  also have "\<dots> = of_nat (unat (drop_bit k x))"
    by (simp only: of_nat_unat_ucast)
  also have "unat (drop_bit k x) = unat x div 2 ^ k"
    unfolding unat_drop_bit_eq by (rule drop_bit_eq_div)
  finally show ?thesis
    by (simp only: of_nat_mod_256)
qed

lemma store32le_bytes:
  "store32le [0, 0, 0, 0] 0 (ucast (x :: block_t)) =
     [of_nat (unat x mod 256), of_nat (unat x div 256 mod 256),
      of_nat (unat x div 65536 mod 256), of_nat (unat x div 16777216 mod 256)]"
  using le_byte [of 0 x] le_byte [of 8 x] le_byte [of 16 x] le_byte [of 24 x]
  by (simp add: store32le_def)

lemma chs_bytes:
  "take 3 (lba2chs lba [0, 0, 0] 0) =
     [of_nat ((unat lba div 63) mod 16),
      of_nat (drop_bit 2 ((unat lba div (63 * 16)) AND 0x300) OR (unat lba mod 63 + 1)),
      of_nat ((unat lba div (63 * 16)) AND 0xFF)]"
  by (simp add: lba2chs_nat Let_def)

lemma entryImage_explicit:
  "entryImage s e t =
     [0,
      of_nat ((unat s div 63) mod 16),
      of_nat (drop_bit 2 ((unat s div (63 * 16)) AND 0x300) OR (unat s mod 63 + 1)),
      of_nat ((unat s div (63 * 16)) AND 0xFF),
      t,
      of_nat ((unat e div 63) mod 16),
      of_nat (drop_bit 2 ((unat e div (63 * 16)) AND 0x300) OR (unat e mod 63 + 1)),
      of_nat ((unat e div (63 * 16)) AND 0xFF),
      of_nat (unat s mod 256), of_nat (unat s div 256 mod 256),
      of_nat (unat s div 65536 mod 256), of_nat (unat s div 16777216 mod 256),
      of_nat (unat (e - s + 1) mod 256), of_nat (unat (e - s + 1) div 256 mod 256),
      of_nat (unat (e - s + 1) div 65536 mod 256),
      of_nat (unat (e - s + 1) div 16777216 mod 256)]"
  by (simp only: entryImage_bytes chs_bytes store32le_bytes) simp

lemma slot_nth: "j < 16 \<Longrightarrow> 0x1BE + i * 16 + 16 \<le> length mbr \<Longrightarrow> slot mbr i ! j = mbr ! (0x1BE + i * 16 + j)"
  by (simp add: slot_def)

lemma entryImage_type: "entryImage s e t ! 4 = t"
  by (simp add: entryImage_bytes lba2chs_def Let_def)

lemma entryImage_count:
  "drop 12 (entryImage s e t) = store32le [0, 0, 0, 0] 0 (ucast (e - s + 1))"
  by (simp add: entryImage_bytes lba2chs_def store32le_def Let_def)

text \<open>
  C1.  The claim asks for the stored sector count \<open>entryEnd - entryStart\<close>.  \<^verbatim>\<open>writeEntry\<close>
  stores \<open>end - start + 1\<close> (truncated to 32 bits) at entry offset 0xC.  In the scenario with
  device size 1073741824, firstBad = 536870912 and lastBad = 536871423, three entries are
  emitted, and the second slot (offset 0x1CE), the bad-type entry for sectors
  1048576 to 1048577, holds the count bytes 2, 0, 0, 0 at its offset 0xC: a stored count of
  2, where the claim says 1.
\<close>

theorem writeEntry_sector_count_scenario:
  "drop 12 (entryImage start end type) = store32le [0, 0, 0, 0] 0 (ucast (end - start + 1))
   \<and> emittedEntries 536870912 536871423 1073741824 =
       [(0, 1048576, MBR_PTYPE_GOOD), (1048576, 1048577, MBR_PTYPE_BAD),
        (1048577, 2097152, MBR_PTYPE_GOOD)]
   \<and> (case writePartitionTable serial 536870912 536871423 1073741824 of
        (mbr, partNum) \<Rightarrow>
          partNum = 3 \<and>
          take 16 (drop 0x1CE mbr) = [0, 4, 5, 16, 0xFF, 4, 6, 16, 0, 0, 16, 0, 2, 0, 0, 0] \<and>
          take 4 (drop (0x1CE + 0xC) mbr) = [2, 0, 0, 0])"
proof -
  obtain mbr partNum
    where w: "writePartitionTable serial 536870912 536871423 1073741824 = (mbr, partNum)"
    by (cases "writePartitionTable serial 536870912 536871423 1073741824")
  have n: "partNum = 3"
    using mbr_slots(4) [OF w] by (simp add: scenario_entries)
  have "slot mbr 1 = entryImage 1048576 1048577 MBR_PTYPE_BAD"
    using mbr_slots(6) [OF w, of 1] n by (simp add: scenario_entries)
  then have s1: "take 16 (drop 0x1CE mbr) = [0, 4, 5, 16, 0xFF, 4, 6, 16, 0, 0, 16, 0, 2, 0, 0, 0]"
    by (simp add: slot_def scenario_bad_entry)
  have "take 4 (drop 12 (take 16 (drop 0x1CE mbr))) = [2, 0, 0, 0]"
    by (simp only: s1) simp
  then have "take 4 (drop (0x1CE + 0xC) mbr) = [2, 0, 0, 0]"
    by (simp add: drop_take)
  with n s1 show ?thesis
    by (simp add: w entryImage_count scenario_entries)
qed

text \<open>
  C5.  Whatever the inputs, the image handed to the device is 512 bytes long, carries 0x55
  at offset 0x1FE and 0xAA at offset 0x1FF, and holds as many entries as \<^verbatim>\<open>writeEntry\<close>
  was called, at most three.  The \<open>i\<close>-th call in emission order, for the range from \<open>s\<close>
  to \<open>e\<close> with type \<open>t\<close>, fills the sixteen bytes at offset \<open>0x1BE + 16 * i\<close>: a zero byte,
  the three CHS bytes of \<open>s\<close>, the type \<open>t\<close>, the three CHS bytes of \<open>e\<close>, the low 32 bits of
  \<open>s\<close> and the low 32 bits of \<open>e - s + 1\<close>, both little-endian.  Every later slot, the fourth
  one always, still holds the zero bytes of the \<^verbatim>\<open>memset\<close>.
\<close>

theorem mbr_layout:
  "case writePartitionTable serial firstBadByte lastBadByte devsize of
     (mbr, partNum) \<Rightarrow>
       length mbr = 512 \<and> mbr ! 0x1FE = 0x55 \<and> mbr ! 0x1FF = 0xAA \<and>
       partNum = length (emittedEntries firstBadByte lastBadByte devsize) \<and> partNum \<le> 3 \<and>
       (\<forall>i < partNum.
          case emittedEntries firstBadByte lastBadByte devsize ! i of
            (s, e, t) \<Rightarrow>
              take 16 (drop (0x1BE + 16 * i) mbr) =
                [0,
                 of_nat ((unat s div 63) mod 16),
                 of_nat (drop_bit 2 ((unat s div (63 * 16)) AND 0x300) OR (unat s mod 63 + 1)),
                 of_nat ((unat s div (63 * 16)) AND 0xFF),
                 t,
                 of_nat ((unat e div 63) mod 16),
                 of_nat (drop_bit 2 ((unat e div (63 * 16)) AND 0x300) OR (unat e mod 63 + 1)),
                 of_nat ((unat e div (63 * 16)) AND 0xFF),
                 of_nat (unat s mod 256), of_nat (unat s div 256 mod 256),
                 of_nat (unat s div 65536 mod 256), of_nat (unat s div 16777216 mod 256),
                 of_nat (unat (e - s + 1) mod 256), of_nat (unat (e - s + 1) div 256 mod 256),
                 of_nat (unat (e - s + 1) div 65536 mod 256),
                 of_nat (unat (e - s + 1) div 16777216 mod 256)]) \<and>
       (\<forall>i. partNum \<le> i \<and> i < 4 \<longrightarrow> take 16 (drop (0x1BE + 16 * i) mbr) = replicate 16 0)"
proof -
  obtain mbr partNum
    where w: "writePartitionTable serial firstBadByte lastBadByte devsize = (mbr, partNum)"
    by (cases "writePartitionTable serial firstBadByte lastBadByte devsize")
  have sl: "take 16 (drop (0x1BE + 16 * i) mbr) = slot mbr i" for i
    by (simp add: slot_def mult.commute)
  have ent: "case emittedEntries firstBadByte lastBadByte devsize ! i of
      (s, e, t) \<Rightarrow>
        slot mbr i =
          [0,
           of_nat ((unat s div 63) mod 16),
           of_nat (drop_bit 2 ((unat s div (63 * 16)) AND 0x300) OR (unat s mod 63 + 1)),
           of_nat ((unat s div (63 * 16)) AND 0xFF),
           t,
           of_nat ((unat e div 63) mod 16),
           of_nat (drop_bit 2 ((unat e div (63 * 16)) AND 0x300) OR (unat e mod 63 + 1)),
           of_nat ((unat e div (63 * 16)) AND 0xFF),
           of_nat (unat s mod 256), of_nat (unat s div 256 mod 256),
           of_nat (unat s div 65536 mod 256), of_nat (unat s div 16777216 mod 256),
           of_nat (unat (e - s + 1) mod 256), of_nat (unat (e - s + 1) div 256 mod 256),
           of_nat (unat (e - s + 1) div 65536 mod 256),
           of_nat (unat (e - s + 1) div 16777216 mod 256)]"
    if "i < partNum" for i
  proof -
    obtain s e t where x: "emittedEntries firstBadByte lastBadByte devsize ! i = (s, e, t)"
      by (cases "emittedEntries firstBadByte lastBadByte devsize ! i")
    have "slot mbr i = entryImage s e t"
      using mbr_slots(6) [OF w that] by (simp add: x)
    then show ?thesis
      by (simp only: x prod.case entryImage_explicit)
  qed
  have A: "\<forall>i < partNum.
      case emittedEntries firstBadByte lastBadByte devsize ! i of
        (s, e, t) \<Rightarrow>
          slot mbr i =
            [0,
             of_nat ((unat s div 63) mod 16),
             of_nat (drop_bit 2 ((unat s div (63 * 16)) AND 0x300) OR (unat s mod 63 + 1)),
             of_nat ((unat s div (63 * 16)) AND 0xFF),
             t,
             of_nat ((unat e div 63) mod 16),
             of_nat (drop_bit 2 ((unat e div (63 * 16)) AND 0x300) OR (unat e mod 63 + 1)),
             of_nat ((unat e div (63 * 16)) AND 0xFF),
             of_nat (unat s mod 256), of_nat (unat s div 256 mod 256),
             of_nat (unat s div 65536 mod 256), of_nat (unat s div 16777216 mod 256),
             of_nat (unat (e - s + 1) mod 256), of_nat (unat (e - s + 1) div 256 mod 256),
             of_nat (unat (e - s + 1) div 65536 mod 256),
             of_nat (unat (e - s + 1) div 16777216 mod 256)]"
    by (intro allI impI) (rule ent)
  have Z: "\<forall>i. partNum \<le> i \<and> i < 4 \<longrightarrow> slot mbr i = replicate 16 0"
    using mbr_slots(7) [OF w] by (intro allI impI, elim conjE)
  show ?thesis
    unfolding w prod.case sl
    using mbr_slots(1-5) [OF w] A Z by (intro conjI)
qed

theorem mbr_layout_witness:
  "case writePartitionTable 0 536870912 536871423 1073741824 of
     (mbr, partNum) \<Rightarrow>
       partNum = 3 \<and> length mbr = 512 \<and> mbr ! 0x1FE = 0x55 \<and> mbr ! 0x1FF = 0xAA \<and>
       take 16 (drop 0x1BE mbr) = [0, 0, 1, 0, 0x0C, 4, 5, 16, 0, 0, 0, 0, 1, 0, 16, 0] \<and>
       take 16 (drop 0x1CE mbr) = [0, 4, 5, 16, 0xFF, 4, 6, 16, 0, 0, 16, 0, 2, 0, 0, 0] \<and>
       take 16 (drop 0x1DE mbr) = [0, 4, 6, 16, 0x0C, 8, 9, 32, 1, 0, 16, 0, 0, 0, 16, 0] \<and>
       take 16 (drop 0x1EE mbr) = replicate 16 0"
proof -
  obtain mbr partNum
    where w: "writePartitionTable 0 536870912 536871423 1073741824 = (mbr, partNum)"
    by (cases "writePartitionTable 0 536870912 536871423 1073741824")
  note L = mbr_layout [where serial = 0 and firstBadByte = 536870912 and lastBadByte = 536871423
      and devsize = 1073741824, unfolded w prod.case scenario_entries]
  from L have n: "partNum = 3" by simp
  note a = L [THEN conjunct2, THEN conjunct2, THEN conjunct2, THEN conjunct2, THEN conjunct2,
      THEN conjunct1, rule_format]
  note z = L [THEN conjunct2, THEN conjunct2, THEN conjunct2, THEN conjunct2, THEN conjunct2,
      THEN conjunct2, rule_format]
  have "take 16 (drop 0x1BE mbr) = [0, 0, 1, 0, 0x0C, 4, 5, 16, 0, 0, 0, 0, 1, 0, 16, 0]"
    using a [of 0] n by (simp add: MBR_PTYPE_GOOD_def)
  moreover have "take 16 (drop 0x1CE mbr) = [0, 4, 5, 16, 0xFF, 4, 6, 16, 0, 0, 16, 0, 2, 0, 0, 0]"
    using a [of 1] n by (simp add: MBR_PTYPE_BAD_def)
  moreover have "take 16 (drop 0x1DE mbr) = [0, 4, 6, 16, 0x0C, 8, 9, 32, 1, 0, 16, 0, 0, 0, 16, 0]"
    using a [of 2] n by (simp add: MBR_PTYPE_GOOD_def)
  moreover have "take 16 (drop 0x1EE mbr) = replicate 16 0"
    using z [of 3] n by simp
  ultimately show ?thesis
    using L n by (simp add: w)
qed

text \<open>
  C7.  The claim asks for exactly one entry, of the good type, covering the sectors from 0
  up to but not including \<open>num = size / 512\<close>.  With firstBad = 0, lastBad = 0 and more than
  \<open>MBR_MIN_PART_SIZE\<close> (32768) sectors, \<^verbatim>\<open>writeEntry\<close> is indeed called exactly once, into the
  first slot, and the other three slots stay zero; the entry has type 0x0C and starts at
  sector 0, but the sector count it stores is \<open>num + 1\<close>: it covers the sectors 0 to \<open>num\<close>,
  one more than the device has.  For a device of 1073741824 bytes the count bytes are
  01 00 20 00, that is 2097153 for 2097152 sectors.
\<close>

theorem allgood_entry_stored:
  assumes "MBR_MIN_PART_SIZE < devsize div MBR_SECTOR_SIZE"
  shows "emittedEntries 0 0 devsize = [(0, devsize div MBR_SECTOR_SIZE, MBR_PTYPE_GOOD)] \<and>
     (case writePartitionTable serial 0 0 devsize of
        (mbr, partNum) \<Rightarrow>
          partNum = 1 \<and>
          take 16 (drop 0x1BE mbr) =
            (let num = devsize div MBR_SECTOR_SIZE
             in [0, 0, 1, 0, 0x0C,
                 of_nat ((unat num div 63) mod 16),
                 of_nat (drop_bit 2 ((unat num div (63 * 16)) AND 0x300) OR (unat num mod 63 + 1)),
                 of_nat ((unat num div (63 * 16)) AND 0xFF),
                 0, 0, 0, 0,
                 of_nat (unat (num + 1) mod 256), of_nat (unat (num + 1) div 256 mod 256),
                 of_nat (unat (num + 1) div 65536 mod 256),
                 of_nat (unat (num + 1) div 16777216 mod 256)]) \<and>
          take 16 (drop 0x1CE mbr) = replicate 16 0 \<and>
          take 16 (drop 0x1DE mbr) = replicate 16 0 \<and>
          take 16 (drop 0x1EE mbr) = replicate 16 0)"
proof -
  obtain mbr partNum where w: "writePartitionTable serial 0 0 devsize = (mbr, partNum)"
    by (cases "writePartitionTable serial 0 0 devsize")
  have es: "emittedEntries 0 0 devsize = [(0, devsize div 512, MBR_PTYPE_GOOD)]"
    using assms by (simp add: allgood_entries MBR_MIN_PART_SIZE_def MBR_SECTOR_SIZE_def)
  have n: "partNum = 1"
    using mbr_slots(4) [OF w] by (simp add: es)
  have "slot mbr 0 = entryImage 0 (devsize div 512) MBR_PTYPE_GOOD"
    using mbr_slots(6) [OF w, of 0] n by (simp add: es)
  then have s0: "slot mbr 0 =
      [0, 0, 1, 0, 0x0C,
       of_nat ((unat (devsize div 512) div 63) mod 16),
       of_nat (drop_bit 2 ((unat (devsize div 512) div (63 * 16)) AND 0x300) OR
         (unat (devsize div 512) mod 63 + 1)),
       of_nat ((unat (devsize div 512) div (63 * 16)) AND 0xFF),
       0, 0, 0, 0,
       of_nat (unat (devsize div 512 + 1) mod 256),
       of_nat (unat (devsize div 512 + 1) div 256 mod 256),
       of_nat (unat (devsize div 512 + 1) div 65536 mod 256),
       of_nat (unat (devsize div 512 + 1) div 16777216 mod 256)]"
    by (simp add: entryImage_explicit MBR_PTYPE_GOOD_def)
  have z: "slot mbr 1 = replicate 16 0" "slot mbr 2 = replicate 16 0"
    "slot mbr 3 = replicate 16 0"
    using mbr_slots(7) [OF w] n by simp_all
  have sl: "take 16 (drop 0x1BE mbr) = slot mbr 0" "take 16 (drop 0x1CE mbr) = slot mbr 1"
    "take 16 (drop 0x1DE mbr) = slot mbr 2" "take 16 (drop 0x1EE mbr) = slot mbr 3"
    by (simp_all add: slot_def)
  show ?thesis
    unfolding w prod.case sl Let_def
    using n es s0 z by (simp add: MBR_SECTOR_SIZE_def)
qed

theorem allgood_entry_stored_witness:
  "MBR_MIN_PART_SIZE < 1073741824 div MBR_SECTOR_SIZE \<and>
   emittedEntries 0 0 1073741824 = [(0, 2097152, 0x0C)] \<and>
   (case writePartitionTable 0 0 0 1073741824 of
      (mbr, partNum) \<Rightarrow>
        partNum = 1 \<and>
        take 16 (drop 0x1BE mbr) = [0, 0, 1, 0, 0x0C, 8, 9, 0x20, 0, 0, 0, 0, 1, 0, 0x20, 0] \<and>
        take 4 (drop (0x1BE + 0xC) mbr) = [1, 0, 0x20, 0] \<and>
        take 16 (drop 0x1CE mbr) = replicate 16 0 \<and>
        take 16 (drop 0x1DE mbr) = replicate 16 0 \<and>
        take 16 (drop 0x1EE mbr) = replicate 16 0)"
proof -
  have h: "MBR_MIN_PART_SIZE < 1073741824 div MBR_SECTOR_SIZE"
    by (simp add: MBR_MIN_PART_SIZE_def MBR_SECTOR_SIZE_def)
  have d: "(1073741824 :: block_t) div MBR_SECTOR_SIZE = 2097152"
    by (simp add: MBR_SECTOR_SIZE_def)
  obtain mbr partNum where w: "writePartitionTable 0 0 0 1073741824 = (mbr, partNum)"
    by (cases "writePartitionTable 0 0 0 1073741824")
  note L = allgood_entry_stored [OF h, where serial = 0, unfolded w prod.case d Let_def]
  from L have s0: "take 16 (drop 0x1BE mbr) = [0, 0, 1, 0, 0x0C, 8, 9, 0x20, 0, 0, 0, 0, 1, 0, 0x20, 0]"
    by simp
  have "take 4 (drop 12 (take 16 (drop 0x1BE mbr))) = [1, 0, 0x20, 0]"
    by (simp only: s0) simp
  then have c: "take 4 (drop (0x1BE + 0xC) mbr) = [1, 0, 0x20, 0]"
    by (simp add: drop_take)
  show ?thesis
    using h L s0 c by (simp add: w d MBR_PTYPE_GOOD_def)
qed

text \<open>
  C10.  When the bad region starts inside sector 0 (firstBad < 512, so start = 0) and
  reaches at least the end of that sector (lastBad + 1 >= 512, so end is not 0), the only
  call of \<^verbatim>\<open>writeEntry\<close> that can happen is the trailing good-type one, for the range from
  \<open>end\<close> to \<open>num\<close>: no slot carries the bad type 0xFF, no entry starts at sector 0, at most
  one entry is written and the slots after the first stay zero.
\<close>

theorem bad_region_in_sector0_unmarked:
  assumes "firstBadByte < 512" and "512 \<le> lastBadByte + 1"
  shows "firstBadByte div MBR_SECTOR_SIZE = 0 \<and> (lastBadByte + 1) div MBR_SECTOR_SIZE \<noteq> 0 \<and>
     emittedEntries firstBadByte lastBadByte devsize =
       (if (lastBadByte + 1) div MBR_SECTOR_SIZE < devsize div MBR_SECTOR_SIZE - MBR_MIN_PART_SIZE
        then [((lastBadByte + 1) div MBR_SECTOR_SIZE, devsize div MBR_SECTOR_SIZE, MBR_PTYPE_GOOD)]
        else []) \<and>
     (case writePartitionTable serial firstBadByte lastBadByte devsize of
        (mbr, partNum) \<Rightarrow>
          partNum \<le> 1 \<and>
          (\<forall>i < 4. mbr ! (0x1BE + 16 * i + 4) \<noteq> MBR_PTYPE_BAD) \<and>
          take 16 (drop 0x1CE mbr) = replicate 16 0 \<and>
          take 16 (drop 0x1DE mbr) = replicate 16 0 \<and>
          take 16 (drop 0x1EE mbr) = replicate 16 0)"
proof -
  let ?end = "(lastBadByte + 1) div 512" and ?num = "devsize div 512"
  obtain mbr partNum
    where w: "writePartitionTable serial firstBadByte lastBadByte devsize = (mbr, partNum)"
    by (cases "writePartitionTable serial firstBadByte lastBadByte devsize")
  have es: "emittedEntries firstBadByte lastBadByte devsize =
      (if ?end < ?num - 32768 then [(?end, ?num, MBR_PTYPE_GOOD)] else [])"
    using assms(1) by (rule sector0_entries)
  have n: "partNum = (if ?end < ?num - 32768 then 1 else 0)"
    using mbr_slots(4) [OF w] by (simp add: es)
  have len: "length mbr = 512"
    by (rule mbr_slots(1) [OF w])
  have z: "slot mbr 1 = replicate 16 0" "slot mbr 2 = replicate 16 0"
    "slot mbr 3 = replicate 16 0"
    using mbr_slots(7) [OF w] n by simp_all
  have s0: "slot mbr 0 ! 4 \<noteq> MBR_PTYPE_BAD"
  proof (cases "?end < ?num - 32768")
    case True
    then have "slot mbr 0 = entryImage ?end ?num MBR_PTYPE_GOOD"
      using mbr_slots(6) [OF w, of 0] n by (simp add: es)
    then show ?thesis
      by (simp add: entryImage_type MBR_PTYPE_GOOD_def MBR_PTYPE_BAD_def)
  next
    case False
    then have "slot mbr 0 = replicate 16 0"
      using mbr_slots(7) [OF w, of 0] n by simp
    then show ?thesis
      by (simp add: MBR_PTYPE_BAD_def)
  qed
  have ty: "mbr ! (0x1BE + 16 * i + 4) \<noteq> MBR_PTYPE_BAD" if "i < 4" for i
  proof -
    have "slot mbr i ! 4 \<noteq> MBR_PTYPE_BAD"
    proof (cases "i = 0")
      case True
      then show ?thesis using s0 by simp
    next
      case False
      then have "i = 1 \<or> i = 2 \<or> i = 3" using that by arith
      then show ?thesis using z by (auto simp: MBR_PTYPE_BAD_def)
    qed
    moreover have "slot mbr i ! 4 = mbr ! (0x1BE + i * 16 + 4)"
      using that len by (intro slot_nth) simp_all
    ultimately show ?thesis by (simp add: mult.commute)
  qed
  have "firstBadByte div 512 = 0"
    using assms(1) by (rule div512_zero)
  moreover have "?end \<noteq> 0"
    using assms(2) by (rule div512_nonzero)
  ultimately show ?thesis
    using n es z ty
    by (simp add: w slot_def MBR_SECTOR_SIZE_def MBR_MIN_PART_SIZE_def)
qed

theorem bad_region_in_sector0_unmarked_witness:
  "(0 :: block_t) < 512 \<and> (512 :: block_t) \<le> 4095 + 1 \<and>
   emittedEntries 0 4095 1073741824 = [(8, 2097152, MBR_PTYPE_GOOD)] \<and>
   (case writePartitionTable 0 0 4095 1073741824 of
      (mbr, partNum) \<Rightarrow>
        partNum \<le> 1 \<and>
        mbr ! (0x1BE + 4) \<noteq> MBR_PTYPE_BAD \<and>
        take 16 (drop 0x1CE mbr) = replicate 16 0 \<and>
        take 16 (drop 0x1DE mbr) = replicate 16 0 \<and>
        take 16 (drop 0x1EE mbr) = replicate 16 0)"
proof -
  have h1: "(0 :: block_t) < 512" by simp
  have h2: "(512 :: block_t) \<le> 4095 + 1" by simp
  obtain mbr partNum where w: "writePartitionTable 0 0 4095 1073741824 = (mbr, partNum)"
    by (cases "writePartitionTable 0 0 4095 1073741824")
  note L = bad_region_in_sector0_unmarked [OF h1 h2, where serial = 0 and devsize = 1073741824,
      unfolded w prod.case]
  from L have a: "\<forall>i < 4. mbr ! (0x1BE + 16 * i + 4) \<noteq> MBR_PTYPE_BAD"
    by blast
  have "mbr ! (0x1BE + 4) \<noteq> MBR_PTYPE_BAD"
    using a [rule_format, of 0] by simp
  moreover have "emittedEntries 0 4095 1073741824 = [(8, 2097152, MBR_PTYPE_GOOD)]"
    using L by (simp add: MBR_SECTOR_SIZE_def MBR_MIN_PART_SIZE_def)
  ultimately show ?thesis
    using L by (simp add: w)
qed

section \<open>Properties of the verification pattern\<close>

declare prepareBuf_loop.simps [simp del]

lemma length_block_bytes [simp]: "length (block_bytes w) = 8"
  by (simp add: block_bytes_def)

lemma block_bytes_nth: "k < 8 \<Longrightarrow> block_bytes w ! k = ucast (drop_bit (8 * k) w)"
  by (simp add: block_bytes_def)

lemma block_bytes_inj: "block_bytes v = block_bytes w \<Longrightarrow> v = w"
proof (rule bit_word_eqI)
  fix n
  assume eq: "block_bytes v = block_bytes w" and n: "n < LENGTH(64)"
  then have k: "n div 8 < 8" by simp
  have "bit (block_bytes x ! (n div 8)) (n mod 8) = bit x n" for x :: block_t
    using k n by (simp add: block_bytes_nth bit_simps)
  then show "bit v n = bit w n"
    using eq by metis
qed

lemma prepareBuf_loop_tiles:
  "length buf = len \<Longrightarrow> i + 8 * k = len \<Longrightarrow>
     prepareBuf_loop buf len i w = take i buf @ concat (replicate k (block_bytes w))"
proof (induction k arbitrary: buf i)
  case 0
  then show ?case by (subst prepareBuf_loop.simps) simp
next
  case (Suc k)
  let ?buf = "memcpy buf i (block_bytes w)"
  from Suc.prems have lt: "i < len" and len: "length ?buf = len"
    by (simp_all add: memcpy_def)
  have "prepareBuf_loop buf len i w = prepareBuf_loop ?buf len (i + 8) w"
    using lt by (simp add: prepareBuf_loop.simps [of buf len i])
  also have "\<dots> = take (i + 8) ?buf @ concat (replicate k (block_bytes w))"
    using Suc.prems by (intro Suc.IH len) simp
  also have "take (i + 8) ?buf = take i buf @ block_bytes w"
    using Suc.prems by (simp add: memcpy_def)
  finally show ?case by simp
qed

lemma prepareBuf_tiles:
  "length buf = DATA_BLOCK_SIZE \<Longrightarrow>
     prepareBuf buf DATA_BLOCK_SIZE b = concat (replicate 512 (block_bytes (b + 1)))"
  unfolding prepareBuf_def
  by (subst prepareBuf_loop_tiles [where k = 512]) (simp_all add: DATA_BLOCK_SIZE_def)

lemma tiles_inj:
  assumes "concat (replicate (Suc n) (block_bytes v)) = concat (replicate (Suc n) (block_bytes w))"
  shows "v = w"
proof -
  from assms have "take 8 (block_bytes v @ concat (replicate n (block_bytes v))) =
      take 8 (block_bytes w @ concat (replicate n (block_bytes w)))"
    by simp
  then have "block_bytes v = block_bytes w" by simp
  then show ?thesis by (rule block_bytes_inj)
qed

text \<open>
  C3.  For buffers of \<open>DATA_BLOCK_SIZE\<close> = 4096 bytes, \<^verbatim>\<open>prepareBuf\<close> for block \<open>b\<close> yields
  512 copies of the eight bytes of \<open>b + 1\<close>, whatever the buffer held before; two
  evaluations for the same block compare equal under \<^verbatim>\<open>memcmp\<close>, and the patterns of two
  different 64-bit block numbers never do.
\<close>

theorem prepareBuf_pattern:
  assumes "length buf = DATA_BLOCK_SIZE" and "length buf' = DATA_BLOCK_SIZE"
  shows "prepareBuf buf DATA_BLOCK_SIZE b = concat (replicate 512 (block_bytes (b + 1))) \<and>
     length (prepareBuf buf DATA_BLOCK_SIZE b) = 4096 \<and>
     prepareBuf buf DATA_BLOCK_SIZE b = prepareBuf buf' DATA_BLOCK_SIZE b \<and>
     memcmp_eq (prepareBuf buf DATA_BLOCK_SIZE b) (prepareBuf buf' DATA_BLOCK_SIZE b)
       DATA_BLOCK_SIZE \<and>
     (b1 \<noteq> b2 \<longrightarrow>
        \<not> memcmp_eq (prepareBuf buf DATA_BLOCK_SIZE b1) (prepareBuf buf' DATA_BLOCK_SIZE b2)
          DATA_BLOCK_SIZE)"
proof -
  have t: "prepareBuf buf DATA_BLOCK_SIZE x = concat (replicate 512 (block_bytes (x + 1)))"
    "prepareBuf buf' DATA_BLOCK_SIZE x = concat (replicate 512 (block_bytes (x + 1)))" for x
    using assms by (simp_all add: prepareBuf_tiles)
  have len: "length (concat (replicate 512 (block_bytes x))) = 4096" for x
    by (simp add: length_concat sum_list_replicate)
  have inj: "b1 = b2"
    if "concat (replicate 512 (block_bytes (b1 + 1))) = concat (replicate 512 (block_bytes (b2 + 1)))"
  proof -
    have "b1 + 1 = b2 + 1"
      using that tiles_inj [of 511 "b1 + 1" "b2 + 1"] by simp
    then show ?thesis by simp
  qed
  have c2: "length (prepareBuf buf DATA_BLOCK_SIZE b) = 4096"
    by (simp only: t len)
  have c3: "prepareBuf buf DATA_BLOCK_SIZE b = prepareBuf buf' DATA_BLOCK_SIZE b"
    by (simp only: t)
  have c4: "memcmp_eq (prepareBuf buf DATA_BLOCK_SIZE b) (prepareBuf buf' DATA_BLOCK_SIZE b)
      DATA_BLOCK_SIZE"
    by (simp only: t memcmp_eq_def)
  have c5: "\<not> memcmp_eq (prepareBuf buf DATA_BLOCK_SIZE b1) (prepareBuf buf' DATA_BLOCK_SIZE b2)
      DATA_BLOCK_SIZE" if ne: "b1 \<noteq> b2"
  proof
    assume "memcmp_eq (prepareBuf buf DATA_BLOCK_SIZE b1) (prepareBuf buf' DATA_BLOCK_SIZE b2)
      DATA_BLOCK_SIZE"
    then have "take DATA_BLOCK_SIZE (concat (replicate 512 (block_bytes (b1 + 1)))) =
        take DATA_BLOCK_SIZE (concat (replicate 512 (block_bytes (b2 + 1))))"
      by (simp only: t memcmp_eq_def)
    then have "take 4096 (concat (replicate 512 (block_bytes (b1 + 1)))) =
        take 4096 (concat (replicate 512 (block_bytes (b2 + 1))))"
      by (simp only: DATA_BLOCK_SIZE_def)
    then have "concat (replicate 512 (block_bytes (b1 + 1))) =
        concat (replicate 512 (block_bytes (b2 + 1)))"
      by (simp only: take_all [OF eq_imp_le [OF len]])
    with inj ne show False by blast
  qed
  show ?thesis
    using t(1) [of b] c2 c3 c4 c5 by blast
qed

theorem prepareBuf_pattern_witness:
  "length (replicate 4096 (0 :: u8)) = DATA_BLOCK_SIZE \<and> (0 :: block_t) \<noteq> 1 \<and>
   prepareBuf (replicate 4096 0) DATA_BLOCK_SIZE 0 = concat (replicate 512 (block_bytes (0 + 1))) \<and>
   memcmp_eq (prepareBuf (replicate 4096 0) DATA_BLOCK_SIZE 0)
     (prepareBuf (replicate 4096 0) DATA_BLOCK_SIZE 0) DATA_BLOCK_SIZE \<and>
   \<not> memcmp_eq (prepareBuf (replicate 4096 0) DATA_BLOCK_SIZE 0)
     (prepareBuf (replicate 4096 0) DATA_BLOCK_SIZE 1) DATA_BLOCK_SIZE"
proof -
  have h: "length (replicate 4096 (0 :: u8)) = DATA_BLOCK_SIZE"
    by (simp add: DATA_BLOCK_SIZE_def)
  have ne: "(0 :: block_t) \<noteq> 1" by simp
  show ?thesis
    using h ne prepareBuf_pattern [OF h h, where b = 0 and ?b1.0 = 0 and ?b2.0 = 1]
    by blast
qed

section \<open>Properties of the verification engine\<close>

declare resume_loop.simps [simp del] write_loop.simps [simp del] read_loop.simps [simp del]

lemma pattern_tiles: "pattern b = concat (replicate 512 (block_bytes (b + 1)))"
  unfolding pattern_def by (rule prepareBuf_tiles) simp

lemma length_pattern: "length (pattern b) = DATA_BLOCK_SIZE"
  by (simp add: pattern_tiles length_concat sum_list_replicate DATA_BLOCK_SIZE_def)

lemma block_matches_pattern: "block_matches (pattern c) b \<longleftrightarrow> c = b"
proof
  assume "block_matches (pattern c) b"
  then have "take DATA_BLOCK_SIZE (pattern b) = take DATA_BLOCK_SIZE (pattern c)"
    by (simp add: block_matches_def memcmp_eq_def)
  then have "pattern b = pattern c"
    by (simp add: length_pattern)
  then have "b + 1 = c + 1"
    using tiles_inj [of 511 "b + 1" "c + 1"] by (simp add: pattern_tiles)
  then show "c = b" by simp
next
  assume "c = b"
  then show "block_matches (pattern c) b"
    by (simp add: block_matches_def memcmp_eq_def)
qed

lemma emit_pair [simp]: "emit evs (tr, r) = (evs @ tr, r)"
  by (simp add: emit_def)

lemma fst_emit [simp]: "fst (emit evs r) = evs @ fst r"
  by (simp add: emit_def)

lemma snd_emit [simp]: "snd (emit evs r) = snd r"
  by (simp add: emit_def)

lemma bind_run_Inr [simp]: "bind_run (tr, Inr x) f = emit tr (f x)"
  by (simp add: bind_run_def)

lemma bind_run_Inl [simp]: "bind_run (tr, Inl e) f = (tr, Inl e)"
  by (simp add: bind_run_def)

lemma written_blocks_append [simp]:
  "written_blocks (xs @ ys) = written_blocks xs @ written_blocks ys"
  by (induction xs rule: written_blocks.induct) simp_all

lemma written_blocks_reopens [simp]:
  "written_blocks (concat (replicate n [CinKey, DevReopen])) = []"
  by (induction n) simp_all

lemma word_succ: "b < (n :: block_t) \<Longrightarrow> unat (b + 1) = Suc (unat b)"
proof -
  assume "b < n"
  then have "1 + b \<noteq> 0"
    by (metis add.right_inverse add_left_cancel linorder_not_less word_order.extremum)
  then show ?thesis
    using unatSuc [of b] by (simp add: add.commute)
qed

lemma le_succ_iff: "b < (n :: block_t) \<Longrightarrow> b \<le> c \<longleftrightarrow> c = b \<or> b + 1 \<le> c"
  by (auto simp: word_le_nat_alt word_succ word_unat_eq_iff)

lemma less_succ_iff: "b < (n :: block_t) \<Longrightarrow> c < b + 1 \<longleftrightarrow> c \<le> b"
  by (auto simp: word_le_nat_alt word_less_nat_alt word_succ)

lemma fail_read_block [simp]: "fail (read_block env b st) = read_failed env b"
  by (simp add: read_block_def read_failed_def markBad_def split: sum.splits)

lemma firstBad_read_block [simp]:
  "firstBad (read_block env b st) = (firstBad st \<or> bad_block env b)"
  by (simp add: read_block_def bad_block_def markBad_def split: sum.splits)

lemma firstBadBlock_read_block [simp]:
  "firstBadBlock (read_block env b st) =
     (if \<not> firstBad st \<and> bad_block env b then b else firstBadBlock st)"
  by (simp add: read_block_def bad_block_def markBad_def split: sum.splits)

lemma lastBadBlock_read_block [simp]:
  "lastBadBlock (read_block env b st) = (if bad_block env b then b else lastBadBlock st)"
  by (simp add: read_block_def bad_block_def markBad_def split: sum.splits)

lemma read_loop_Inr_induct [consumes 1, case_names stop step]:
  assumes run: "read_loop env n b st = (tr, Inr st')"
    and base: "\<And>b st. \<not> b < n \<Longrightarrow> P b st st"
    and step: "\<And>b st st' tr'. b < n \<Longrightarrow>
      read_loop env n (b + 1) (read_block env b st) = (tr', Inr st') \<Longrightarrow>
      P (b + 1) (read_block env b st) st' \<Longrightarrow> P b st st'"
  shows "P b st st'"
  using run
proof (induction k \<equiv> "unat n - unat b" arbitrary: b st tr)
  case 0
  then have nlt: "\<not> b < n"
    by (simp add: word_less_nat_alt)
  with "0.prems" have "st' = st"
    by (simp add: read_loop.simps [of env n b st])
  with nlt show ?case by (simp add: base)
next
  case (Suc k)
  then have lt: "b < n"
    by (simp add: word_less_nat_alt)
  let ?st = "read_block env b st"
  obtain tr' where rec: "read_loop env n (b + 1) ?st = (tr', Inr st')"
    using Suc.prems lt
    by (cases "read_loop env n (b + 1) ?st")
      (auto simp: read_loop.simps [of env n b st] split: if_splits)
  have "k = unat n - unat (b + 1)"
    using Suc.hyps(2) lt by (simp add: word_succ)
  then have "P (b + 1) ?st st'"
    using rec by (rule Suc.hyps(1))
  with lt rec show ?case by (rule step)
qed

lemma read_loop_firstBad:
  "read_loop env n b st = (tr, Inr st') \<Longrightarrow>
     firstBad st' \<longleftrightarrow> firstBad st \<or> (\<exists>c. b \<le> c \<and> c < n \<and> bad_block env c)"
proof (induction rule: read_loop_Inr_induct)
  case (stop b st)
  then show ?case by auto
next
  case (step b st st' tr')
  then show ?case
    by (auto simp: le_succ_iff [of b n])
qed

lemma read_loop_firstBadBlock_old:
  "read_loop env n b st = (tr, Inr st') \<Longrightarrow> firstBad st \<Longrightarrow>
     firstBadBlock st' = firstBadBlock st"
  by (induction rule: read_loop_Inr_induct) auto

lemma read_loop_firstBadBlock_new:
  "read_loop env n b st = (tr, Inr st') \<Longrightarrow> \<not> firstBad st \<Longrightarrow> firstBad st' \<Longrightarrow>
     b \<le> firstBadBlock st' \<and> firstBadBlock st' < n \<and> bad_block env (firstBadBlock st') \<and>
     (\<forall>c. b \<le> c \<and> c < firstBadBlock st' \<longrightarrow> \<not> bad_block env c)"
proof (induction rule: read_loop_Inr_induct)
  case (stop b st)
  then show ?case by simp
next
  case (step b st st' tr')
  show ?case
  proof (cases "bad_block env b")
    case True
    then have "firstBadBlock st' = b"
      using read_loop_firstBadBlock_old [OF step.hyps(2)] step.prems by simp
    with True step.hyps(1) show ?thesis by auto
  next
    case False
    with step have "b + 1 \<le> firstBadBlock st' \<and> firstBadBlock st' < n \<and>
        bad_block env (firstBadBlock st') \<and>
        (\<forall>c. b + 1 \<le> c \<and> c < firstBadBlock st' \<longrightarrow> \<not> bad_block env c)"
      by simp
    with False step.hyps(1) show ?thesis
      by (auto simp: le_succ_iff [of b n])
  qed
qed

lemma read_loop_lastBadBlock_none:
  "read_loop env n b st = (tr, Inr st') \<Longrightarrow> \<forall>c. b \<le> c \<and> c < n \<longrightarrow> \<not> bad_block env c \<Longrightarrow>
     lastBadBlock st' = lastBadBlock st"
proof (induction rule: read_loop_Inr_induct)
  case (stop b st)
  then show ?case by simp
next
  case (step b st st' tr')
  then show ?case
    by (auto simp: le_succ_iff [of b n])
qed

lemma read_loop_lastBadBlock:
  "read_loop env n b st = (tr, Inr st') \<Longrightarrow> \<exists>c. b \<le> c \<and> c < n \<and> bad_block env c \<Longrightarrow>
     b \<le> lastBadBlock st' \<and> lastBadBlock st' < n \<and> bad_block env (lastBadBlock st') \<and>
     (\<forall>c. lastBadBlock st' < c \<and> c < n \<longrightarrow> \<not> bad_block env c)"
proof (induction rule: read_loop_Inr_induct)
  case (stop b st)
  then show ?case by auto
next
  case (step b st st' tr')
  show ?case
  proof (cases "\<exists>c. b + 1 \<le> c \<and> c < n \<and> bad_block env c")
    case True
    then have "b + 1 \<le> lastBadBlock st' \<and> lastBadBlock st' < n \<and>
        bad_block env (lastBadBlock st') \<and>
        (\<forall>c. lastBadBlock st' < c \<and> c < n \<longrightarrow> \<not> bad_block env c)"
      by (rule step.IH)
    then show ?thesis
      using step.hyps(1) by (auto simp: le_succ_iff [of b n])
  next
    case False
    then have none: "\<forall>c. b + 1 \<le> c \<and> c < n \<longrightarrow> \<not> bad_block env c"
      by blast
    with step.prems step.hyps(1) have bad: "bad_block env b"
      by (auto simp: le_succ_iff [of b n])
    have "lastBadBlock st' = b"
      using read_loop_lastBadBlock_none [OF step.hyps(2) none] bad by simp
    moreover have "\<not> bad_block env c" if "b < c" "c < n" for c
    proof -
      have "b + 1 \<le> c"
        using that step.hyps(1) by (auto simp: le_succ_iff [of b n] less_le)
      with none that show ?thesis by blast
    qed
    ultimately show ?thesis
      using bad step.hyps(1) by auto
  qed
qed


lemma read_loop_fail:
  "read_loop env n b st = (tr, Inr st') \<Longrightarrow> b < n \<Longrightarrow> fail st' = read_failed env (n - 1)"
proof (induction rule: read_loop_Inr_induct)
  case (stop b st)
  then show ?case by simp
next
  case (step b st st' tr')
  show ?case
  proof (cases "b + 1 < n")
    case True
    then show ?thesis by (rule step.IH)
  next
    case False
    then have "st' = read_block env b st"
      using step.hyps(2) by (simp add: read_loop.simps [of env n "b + 1"])
    moreover have "n = b + 1"
      using False step.hyps(1) by (auto simp: word_le_nat_alt word_less_nat_alt word_succ word_unat_eq_iff)
    ultimately show ?thesis by simp
  qed
qed

lemma read_loop_cases [case_names stop abort report quiet]:
  assumes "\<not> b < n \<Longrightarrow> read_loop env n b st = ([], Inr st) \<Longrightarrow> Q"
    and "b < n \<Longrightarrow> b mod 256 = 0 \<or> read_failed env b \<Longrightarrow>
         \<not> cb_readProgress env b (read_failed env b) \<Longrightarrow>
         read_loop env n b st = ([DevRead b, ReadProgress b (read_failed env b)],
           Inl (Error ''Verification operation aborted'')) \<Longrightarrow> Q"
    and "b < n \<Longrightarrow> b mod 256 = 0 \<or> read_failed env b \<Longrightarrow>
         cb_readProgress env b (read_failed env b) \<Longrightarrow>
         read_loop env n b st = emit [DevRead b, ReadProgress b (read_failed env b)]
           (read_loop env n (b + 1) (read_block env b st)) \<Longrightarrow> Q"
    and "b < n \<Longrightarrow> \<not> (b mod 256 = 0 \<or> read_failed env b) \<Longrightarrow>
         read_loop env n b st = emit [DevRead b] (read_loop env n (b + 1) (read_block env b st)) \<Longrightarrow> Q"
  shows Q
proof -
  consider "\<not> b < n"
    | "b < n" "b mod 256 = 0 \<or> read_failed env b" "\<not> cb_readProgress env b (read_failed env b)"
    | "b < n" "b mod 256 = 0 \<or> read_failed env b" "cb_readProgress env b (read_failed env b)"
    | "b < n" "\<not> (b mod 256 = 0 \<or> read_failed env b)"
    by blast
  then show Q
  proof cases
    case 1
    then show ?thesis
      by (intro assms(1)) (simp_all add: read_loop.simps [of env n b st])
  next
    case 2
    then show ?thesis
      by (intro assms(2)) (simp_all add: read_loop.simps [of env n b st])
  next
    case 3
    then show ?thesis
      by (intro assms(3)) (simp_all add: read_loop.simps [of env n b st])
  next
    case 4
    then show ?thesis
      by (intro assms(4)) (simp_all add: read_loop.simps [of env n b st])
  qed
qed

lemma read_loop_trace_induct [case_names stop abort report quiet]:
  assumes stop: "\<And>b st. \<not> b < n \<Longrightarrow> P b st ([], Inr st)"
    and abort: "\<And>b st. b < n \<Longrightarrow> b mod 256 = 0 \<or> read_failed env b \<Longrightarrow>
         \<not> cb_readProgress env b (read_failed env b) \<Longrightarrow>
         P b st ([DevRead b, ReadProgress b (read_failed env b)],
           Inl (Error ''Verification operation aborted''))"
    and report: "\<And>b st. b < n \<Longrightarrow> b mod 256 = 0 \<or> read_failed env b \<Longrightarrow>
         cb_readProgress env b (read_failed env b) \<Longrightarrow>
         P (b + 1) (read_block env b st) (read_loop env n (b + 1) (read_block env b st)) \<Longrightarrow>
         P b st (emit [DevRead b, ReadProgress b (read_failed env b)]
           (read_loop env n (b + 1) (read_block env b st)))"
    and quiet: "\<And>b st. b < n \<Longrightarrow> \<not> (b mod 256 = 0 \<or> read_failed env b) \<Longrightarrow>
         P (b + 1) (read_block env b st) (read_loop env n (b + 1) (read_block env b st)) \<Longrightarrow>
         P b st (emit [DevRead b] (read_loop env n (b + 1) (read_block env b st)))"
  shows "P b st (read_loop env n b st)"
proof (induction k \<equiv> "unat n - unat b" arbitrary: b st)
  case 0
  then have "\<not> b < n"
    by (simp add: word_less_nat_alt)
  then show ?case
    using stop [of b st] by (simp add: read_loop.simps [of env n b st])
next
  case (Suc k)
  then have lt: "b < n"
    by (simp add: word_less_nat_alt)
  have "k = unat n - unat (b + 1)"
    using Suc.hyps(2) lt by (simp add: word_succ)
  then have IH: "P (b + 1) (read_block env b st) (read_loop env n (b + 1) (read_block env b st))"
    by (rule Suc.hyps(1))
  show ?case
  proof (cases rule: read_loop_cases [of b n env st])
    case stop
    with lt show ?thesis by simp
  next
    case abort
    then show ?thesis using assms(2) [of b st] by simp
  next
    case report
    then show ?thesis using assms(3) [of b st] IH by simp
  next
    case quiet
    then show ?thesis using assms(4) [of b st] IH by simp
  qed
qed

lemma read_loop_no_calls [simp]: "partition_calls (fst (read_loop env n b st)) = []"
  by (induction b st rule: read_loop_trace_induct) simp_all

lemma read_loop_no_writes [simp]: "written_blocks (fst (read_loop env n b st)) = []"
  by (induction b st rule: read_loop_trace_induct) simp_all

lemma read_loop_no_finish [simp]: "ReadFinish \<notin> set (fst (read_loop env n b st))"
  by (induction b st rule: read_loop_trace_induct) simp_all

lemma read_loop_reports:
  "ReadProgress c f \<in> set (fst (read_loop env n b st)) \<Longrightarrow>
     f = read_failed env c \<and> (c mod 256 = 0 \<or> read_failed env c) \<and> b \<le> c \<and> c < n"
proof (induction b st rule: read_loop_trace_induct)
  case (report b st)
  then show ?case by (auto simp: le_succ_iff [of b n] del: mod_0_imp_dvd)
next
  case (quiet b st)
  then show ?case by (auto simp: le_succ_iff [of b n] del: mod_0_imp_dvd)
qed (auto del: mod_0_imp_dvd)

lemma read_loop_reads:
  "DevRead c \<in> set (fst (read_loop env n b st)) \<Longrightarrow> b \<le> c \<and> c < n"
proof (induction b st rule: read_loop_trace_induct)
  case (report b st)
  then show ?case by (auto simp: le_succ_iff [of b n])
next
  case (quiet b st)
  then show ?case by (auto simp: le_succ_iff [of b n])
qed auto

lemma read_loop_reported:
  "DevRead c \<in> set (fst (read_loop env n b st)) \<Longrightarrow> c mod 256 = 0 \<or> read_failed env c \<Longrightarrow>
     ReadProgress c (read_failed env c) \<in> set (fst (read_loop env n b st))"
  by (induction b st rule: read_loop_trace_induct) auto

lemma read_loop_abort:
  "fst (read_loop env n b st) = tr1 @ ReadProgress c f # tr2 \<Longrightarrow> \<not> cb_readProgress env c f \<Longrightarrow>
     tr2 = [] \<and> snd (read_loop env n b st) = Inl (Error ''Verification operation aborted'')"
proof (induction b st arbitrary: tr1 rule: read_loop_trace_induct)
  case (stop b st)
  then show ?case by simp
next
  case (abort b st)
  then show ?case by (auto simp: Cons_eq_append_conv)
next
  case (report b st)
  then show ?case by (auto simp: Cons_eq_append_conv)
next
  case (quiet b st)
  then show ?case by (auto simp: Cons_eq_append_conv)
qed

lemma read_loop_Inl:
  "snd (read_loop env n b st) = Inl e \<Longrightarrow>
     e = Error ''Verification operation aborted'' \<and>
     (\<exists>tr1 c. fst (read_loop env n b st) = tr1 @ [ReadProgress c (read_failed env c)] \<and>
        \<not> cb_readProgress env c (read_failed env c))"
proof (induction b st rule: read_loop_trace_induct)
  case (report b st)
  then obtain tr1 c where "fst (read_loop env n (b + 1) (read_block env b st)) =
      tr1 @ [ReadProgress c (read_failed env c)]" "\<not> cb_readProgress env c (read_failed env c)"
    and "e = Error ''Verification operation aborted''"
    by auto
  then show ?case
    by (auto intro: exI [of _ "DevRead b # ReadProgress b (read_failed env b) # tr1"])
next
  case (quiet b st)
  then obtain tr1 c where "fst (read_loop env n (b + 1) (read_block env b st)) =
      tr1 @ [ReadProgress c (read_failed env c)]" "\<not> cb_readProgress env c (read_failed env c)"
    and "e = Error ''Verification operation aborted''"
    by auto
  then show ?case
    by (auto intro: exI [of _ "DevRead b # tr1"])
qed auto

lemma read_loop_Inr_reads:
  "snd (read_loop env n b st) = Inr st' \<Longrightarrow> b \<le> c \<Longrightarrow> c < n \<Longrightarrow>
     DevRead c \<in> set (fst (read_loop env n b st))"
proof (induction b st rule: read_loop_trace_induct)
  case (report b st)
  then show ?case by (auto simp: le_succ_iff [of b n])
next
  case (quiet b st)
  then show ?case by (auto simp: le_succ_iff [of b n])
qed auto

lemma Check_read_completed:
  assumes "snd (read_loop env n 0 initial_rstate) = Inr st"
  shows "Check_read env n =
     ([DevSeek 0, ReadStart 0 n] @ fst (read_loop env n 0 initial_rstate) @
        (if \<not> fail st then [ReadProgress (n - 1) True] else []) @
        [ReadFinish,
         (if firstBad st
          then WritePartitionTable BadFound (firstBadBlock st * 4096)
                 ((lastBadBlock st + 1) * 4096 - 1) (n * 4096)
          else WritePartitionTable AllGood 0 0 (n * 4096)),
         DevSeek 0,
         DevWriteMBR (fst (if firstBad st
           then writePartitionTable (random_value env) (firstBadBlock st * 4096)
                  ((lastBadBlock st + 1) * 4096 - 1) (n * 4096)
           else writePartitionTable (random_value env) 0 0 (n * 4096)))],
      dev_write_mbr env)"
proof -
  obtain tr where run: "read_loop env n 0 initial_rstate = (tr, Inr st)"
    using assms by (cases "read_loop env n 0 initial_rstate") simp
  show ?thesis
    by (simp add: Check_read_def run Device_writePartitionTable_def DATA_BLOCK_SIZE_def)
qed

lemma Check_read_aborted:
  assumes "snd (read_loop env n 0 initial_rstate) = Inl e"
  shows "Check_read env n =
     ([DevSeek 0, ReadStart 0 n] @ fst (read_loop env n 0 initial_rstate), Inl e)"
proof -
  obtain tr where run: "read_loop env n 0 initial_rstate = (tr, Inl e)"
    using assms by (cases "read_loop env n 0 initial_rstate") simp
  show ?thesis
    by (simp add: Check_read_def run)
qed

lemma partition_calls_append [simp]:
  "partition_calls (xs @ ys) = partition_calls xs @ partition_calls ys"
  by (induction xs rule: partition_calls.induct) simp_all

lemma Check_read_finish_iff:
  "ReadFinish \<in> set (fst (Check_read env n)) \<longleftrightarrow>
     (\<exists>st. snd (read_loop env n 0 initial_rstate) = Inr st)"
proof (cases "snd (read_loop env n 0 initial_rstate)")
  case (Inl e)
  then show ?thesis by (simp add: Check_read_aborted)
next
  case (Inr st)
  then show ?thesis by (simp add: Check_read_completed)
qed

text \<open>
  C4.  A read pass that reaches \<^verbatim>\<open>readFinish()\<close> calls \<^verbatim>\<open>writePartitionTable\<close> exactly
  once.  If some block below \<open>numBlocks\<close> was bad (its read raised or its data did not match),
  the call comes from the first call site, with firstBad = f * 4096 and
  lastBad = (l + 1) * 4096 - 1 for the lowest bad block \<open>f\<close> and the highest bad block \<open>l\<close>;
  otherwise it comes from the second call site, with firstBad = 0 and lastBad = 0.  The
  size is numBlocks * 4096 in both.  A read pass that is aborted makes no call.
\<close>

theorem read_pass_partition_call:
  "(ReadFinish \<in> set (fst (Check_read env n)) \<longrightarrow>
      (if \<exists>c<n. bad_block env c
       then \<exists>f l. f < n \<and> l < n \<and> bad_block env f \<and> bad_block env l \<and>
              (\<forall>c<f. \<not> bad_block env c) \<and> (\<forall>c. l < c \<and> c < n \<longrightarrow> \<not> bad_block env c) \<and>
              partition_calls (fst (Check_read env n)) =
                [(BadFound, f * of_nat DATA_BLOCK_SIZE, (l + 1) * of_nat DATA_BLOCK_SIZE - 1,
                  n * of_nat DATA_BLOCK_SIZE)]
       else partition_calls (fst (Check_read env n)) =
              [(AllGood, 0, 0, n * of_nat DATA_BLOCK_SIZE)])) \<and>
   (ReadFinish \<notin> set (fst (Check_read env n)) \<longrightarrow>
      partition_calls (fst (Check_read env n)) = [] \<and> (\<exists>e. snd (Check_read env n) = Inl e))"
proof (cases "snd (read_loop env n 0 initial_rstate)")
  case (Inl e)
  then show ?thesis
    using Check_read_finish_iff [of env n] by (simp add: Check_read_aborted)
next
  case (Inr st)
  then obtain tr where run: "read_loop env n 0 initial_rstate = (tr, Inr st)"
    by (cases "read_loop env n 0 initial_rstate") simp
  have fin: "ReadFinish \<in> set (fst (Check_read env n))"
    using Inr by (simp add: Check_read_finish_iff)
  have calls: "partition_calls (fst (Check_read env n)) =
      [if firstBad st
       then (BadFound, firstBadBlock st * 4096, (lastBadBlock st + 1) * 4096 - 1, n * 4096)
       else (AllGood, 0, 0, n * 4096)]"
    using Inr by (simp add: Check_read_completed)
  have fb: "firstBad st \<longleftrightarrow> (\<exists>c<n. bad_block env c)"
    using read_loop_firstBad [OF run] by (simp add: initial_rstate_def)
  show ?thesis
  proof (cases "\<exists>c<n. bad_block env c")
    case False
    with fb calls fin show ?thesis
      by (simp add: DATA_BLOCK_SIZE_def)
  next
    case True
    then have st: "firstBad st" using fb by simp
    have f: "firstBadBlock st < n \<and> bad_block env (firstBadBlock st) \<and>
        (\<forall>c. c < firstBadBlock st \<longrightarrow> \<not> bad_block env c)"
      using read_loop_firstBadBlock_new [OF run _ st] by (simp add: initial_rstate_def)
    have l: "lastBadBlock st < n \<and> bad_block env (lastBadBlock st) \<and>
        (\<forall>c. lastBadBlock st < c \<and> c < n \<longrightarrow> \<not> bad_block env c)"
      using read_loop_lastBadBlock [OF run] True by simp
    have "\<exists>f l. f < n \<and> l < n \<and> bad_block env f \<and> bad_block env l \<and>
              (\<forall>c<f. \<not> bad_block env c) \<and> (\<forall>c. l < c \<and> c < n \<longrightarrow> \<not> bad_block env c) \<and>
              partition_calls (fst (Check_read env n)) =
                [(BadFound, f * of_nat DATA_BLOCK_SIZE, (l + 1) * of_nat DATA_BLOCK_SIZE - 1,
                  n * of_nat DATA_BLOCK_SIZE)]"
      using f l calls st
      by (intro exI [of _ "firstBadBlock st"] exI [of _ "lastBadBlock st"])
        (simp add: DATA_BLOCK_SIZE_def)
    with True fin show ?thesis by simp
  qed
qed


lemma bad_block_interrupted [simp]: "bad_block (interrupted_env k) c \<longleftrightarrow> \<not> c < k"
  by (simp add: bad_block_def interrupted_env_def block_matches_pattern)

lemma read_failed_interrupted [simp]: "\<not> read_failed (interrupted_env k) c"
  by (simp add: read_failed_def interrupted_env_def)

lemma read_block_interrupted:
  "read_block (interrupted_env k) b st =
     (if b < k then st\<lparr>fail := False\<rparr> else markBad b (st\<lparr>fail := False\<rparr>))"
  by (simp add: read_block_def interrupted_env_def block_matches_pattern)

lemma read_loop_interrupted_3:
  "read_loop (interrupted_env 1) 3 0 initial_rstate =
     ([DevRead 0, ReadProgress 0 False, DevRead 1, DevRead 2],
      Inr \<lparr>firstBad = True, firstBadBlock = 1, lastBadBlock = 2, fail = False\<rparr>)"
  by (simp add: read_loop.simps read_block_interrupted markBad_def initial_rstate_def)
    (simp add: interrupted_env_def)

theorem read_pass_partition_call_witness:
  "ReadFinish \<in> set (fst (Check_read (interrupted_env 1) 3)) \<and>
   (\<exists>c<3. bad_block (interrupted_env 1) c) \<and>
   partition_calls (fst (Check_read (interrupted_env 1) 3)) = [(BadFound, 4096, 12287, 12288)] \<and>
   (\<exists>f l. f < 3 \<and> l < 3 \<and> bad_block (interrupted_env 1) f \<and> bad_block (interrupted_env 1) l \<and>
      (\<forall>c<f. \<not> bad_block (interrupted_env 1) c) \<and>
      (\<forall>c. l < c \<and> c < 3 \<longrightarrow> \<not> bad_block (interrupted_env 1) c) \<and>
      partition_calls (fst (Check_read (interrupted_env 1) 3)) =
        [(BadFound, f * of_nat DATA_BLOCK_SIZE, (l + 1) * of_nat DATA_BLOCK_SIZE - 1,
          3 * of_nat DATA_BLOCK_SIZE)])"
proof -
  have run: "snd (read_loop (interrupted_env 1) 3 0 initial_rstate) =
      Inr \<lparr>firstBad = True, firstBadBlock = 1, lastBadBlock = 2, fail = False\<rparr>"
    by (simp add: read_loop_interrupted_3)
  have h1: "ReadFinish \<in> set (fst (Check_read (interrupted_env 1) 3))"
    by (simp add: Check_read_completed [OF run])
  have h2: "\<exists>c<3. bad_block (interrupted_env 1) c"
    by (rule exI [of _ 1]) simp
  have calls: "partition_calls (fst (Check_read (interrupted_env 1) 3)) =
      [(BadFound, 4096, 12287, 12288)]"
    by (simp add: Check_read_completed [OF run] read_loop_interrupted_3)
  note T = read_pass_partition_call [of "interrupted_env 1" 3, THEN conjunct1, rule_format, OF h1]
  from T h2 have "\<exists>f l. f < 3 \<and> l < 3 \<and> bad_block (interrupted_env 1) f \<and>
      bad_block (interrupted_env 1) l \<and>
      (\<forall>c<f. \<not> bad_block (interrupted_env 1) c) \<and>
      (\<forall>c. l < c \<and> c < 3 \<longrightarrow> \<not> bad_block (interrupted_env 1) c) \<and>
      partition_calls (fst (Check_read (interrupted_env 1) 3)) =
        [(BadFound, f * of_nat DATA_BLOCK_SIZE, (l + 1) * of_nat DATA_BLOCK_SIZE - 1,
          3 * of_nat DATA_BLOCK_SIZE)]"
    by (simp only: if_True)
  with h1 h2 calls show ?thesis by blast
qed

lemma read_block_good: "read_block good_env b st = st\<lparr>fail := False\<rparr>"
  by (simp add: read_block_def good_env_def block_matches_pattern)

lemma read_failed_good [simp]: "\<not> read_failed good_env b"
  by (simp add: read_failed_def good_env_def)

text \<open>
  C8.  The claim asks that whenever \<^verbatim>\<open>readProgress\<close> returns false the read pass ends at
  once with an error.  On a one-block device that reads back its pattern, with a callback
  that answers false to every report flagged as a failure, the loop reports block 0
  unflagged and goes on.  After the loop \<^verbatim>\<open>readProgress(numBlocks - 1, true)\<close> is called: the
  flag is set although block 0 was read, the callback answers false, and the read pass
  neither raises nor stops; it calls \<^verbatim>\<open>readFinish()\<close>, writes the partition table and
  returns normally.
\<close>

theorem final_report_answer_ignored:
  "\<not> cb_readProgress good_env 0 True \<and>
   Check_read good_env 1 =
     ([DevSeek 0, ReadStart 0 1, DevRead 0, ReadProgress 0 False, ReadProgress 0 True,
       ReadFinish, WritePartitionTable AllGood 0 0 4096, DevSeek 0,
       DevWriteMBR (fst (writePartitionTable 0 0 0 4096))],
      Inr ())"
proof -
  have cb: "cb_readProgress good_env b f = (\<not> f)" for b f
    by (simp add: good_env_def)
  have run: "read_loop good_env 1 0 initial_rstate =
      ([DevRead 0, ReadProgress 0 False], Inr (initial_rstate\<lparr>fail := False\<rparr>))"
    by (simp add: read_loop.simps read_block_good cb)
  have r: "snd (read_loop good_env 1 0 initial_rstate) = Inr (initial_rstate\<lparr>fail := False\<rparr>)"
    by (simp add: run)
  have env: "random_value good_env = 0" "dev_write_mbr good_env = Inr ()"
    by (simp_all add: good_env_def)
  have "Check_read good_env 1 =
     ([DevSeek 0, ReadStart 0 1, DevRead 0, ReadProgress 0 False, ReadProgress 0 True,
       ReadFinish, WritePartitionTable AllGood 0 0 4096, DevSeek 0,
       DevWriteMBR (fst (writePartitionTable 0 0 0 4096))],
      Inr ())"
  proof -
    have st: "\<not> firstBad (initial_rstate\<lparr>fail := False\<rparr>)"
      by (simp add: initial_rstate_def)
    show ?thesis
      by (simp add: Check_read_completed [OF r] run env st)
  qed
  then show ?thesis by (simp add: cb)
qed

text \<open>
  The calls of \<^verbatim>\<open>readProgress\<close> made inside the read loop behave as its documentation says.
  Every block that is read and whose index is a multiple of 256 or whose read raised is
  reported, and the flag of a report made in the loop says exactly whether the read of
  that block raised.  Whenever a call made in the loop returns false, nothing follows it:
  the pass ends there with the error ``Verification operation aborted'', no further block
  is read.  A pass whose loop completes has read every block and got true from every call
  in the loop.
\<close>

theorem read_pass_reports:
  "(\<forall>c. DevRead c \<in> set (fst (read_loop env n 0 initial_rstate)) \<and>
        (c mod 256 = 0 \<or> read_failed env c) \<longrightarrow>
        ReadProgress c (read_failed env c) \<in> set (fst (read_loop env n 0 initial_rstate))) \<and>
   (\<forall>c f. ReadProgress c f \<in> set (fst (read_loop env n 0 initial_rstate)) \<longrightarrow>
        f = read_failed env c \<and> (c mod 256 = 0 \<or> read_failed env c) \<and> c < n) \<and>
   (\<forall>tr1 c f tr2. fst (read_loop env n 0 initial_rstate) = tr1 @ ReadProgress c f # tr2 \<and>
        \<not> cb_readProgress env c f \<longrightarrow>
        tr2 = [] \<and>
        Check_read env n = ([DevSeek 0, ReadStart 0 n] @ tr1 @ [ReadProgress c f],
          Inl (Error ''Verification operation aborted''))) \<and>
   (\<forall>st. snd (read_loop env n 0 initial_rstate) = Inr st \<longrightarrow>
        (\<forall>c<n. DevRead c \<in> set (fst (read_loop env n 0 initial_rstate))) \<and>
        (\<forall>c f. ReadProgress c f \<in> set (fst (read_loop env n 0 initial_rstate)) \<longrightarrow>
           cb_readProgress env c f) \<and>
        (\<exists>tr. Check_read env n =
           ([DevSeek 0, ReadStart 0 n] @ fst (read_loop env n 0 initial_rstate) @
            (if \<not> fail st then [ReadProgress (n - 1) True] else []) @ ReadFinish # tr,
            dev_write_mbr env)))"
proof -
  let ?run = "read_loop env n 0 initial_rstate"
  have a: "ReadProgress c (read_failed env c) \<in> set (fst ?run)"
    if "DevRead c \<in> set (fst ?run)" "c mod 256 = 0 \<or> read_failed env c" for c
    using that by (rule read_loop_reported)
  have b: "f = read_failed env c \<and> (c mod 256 = 0 \<or> read_failed env c) \<and> c < n"
    if "ReadProgress c f \<in> set (fst ?run)" for c f
    using read_loop_reports [OF that] by simp
  have c: "tr2 = [] \<and> Check_read env n = ([DevSeek 0, ReadStart 0 n] @ tr1 @ [ReadProgress c f],
          Inl (Error ''Verification operation aborted''))"
    if "fst ?run = tr1 @ ReadProgress c f # tr2" "\<not> cb_readProgress env c f" for tr1 c f tr2
  proof -
    from read_loop_abort [OF that]
    have t: "tr2 = []" and r: "snd ?run = Inl (Error ''Verification operation aborted'')"
      by simp_all
    show ?thesis
      using t that(1) by (simp add: Check_read_aborted [OF r])
  qed
  have d: "(\<forall>c<n. DevRead c \<in> set (fst ?run)) \<and>
        (\<forall>c f. ReadProgress c f \<in> set (fst ?run) \<longrightarrow> cb_readProgress env c f) \<and>
        (\<exists>tr. Check_read env n =
           ([DevSeek 0, ReadStart 0 n] @ fst ?run @
            (if \<not> fail st then [ReadProgress (n - 1) True] else []) @ ReadFinish # tr,
            dev_write_mbr env))"
    if r: "snd ?run = Inr st" for st
  proof -
    have "DevRead c \<in> set (fst ?run)" if "c < n" for c
      using r _ that by (rule read_loop_Inr_reads) simp
    moreover have "cb_readProgress env c f" if "ReadProgress c f \<in> set (fst ?run)" for c f
    proof (rule ccontr)
      assume n: "\<not> cb_readProgress env c f"
      from that obtain tr1 tr2 where "fst ?run = tr1 @ ReadProgress c f # tr2"
        by (auto simp: in_set_conv_decomp)
      from read_loop_abort [OF this n] r show False by simp
    qed
    ultimately show ?thesis
      by (simp add: Check_read_completed [OF r])
  qed
  have A: "\<forall>c. DevRead c \<in> set (fst ?run) \<and> (c mod 256 = 0 \<or> read_failed env c) \<longrightarrow>
      ReadProgress c (read_failed env c) \<in> set (fst ?run)"
    by (intro allI impI, elim conjE) (rule a)
  have B: "\<forall>c f. ReadProgress c f \<in> set (fst ?run) \<longrightarrow>
      f = read_failed env c \<and> (c mod 256 = 0 \<or> read_failed env c) \<and> c < n"
    by (intro allI impI) (erule b)
  have C: "\<forall>tr1 c f tr2. fst ?run = tr1 @ ReadProgress c f # tr2 \<and> \<not> cb_readProgress env c f \<longrightarrow>
      tr2 = [] \<and>
      Check_read env n = ([DevSeek 0, ReadStart 0 n] @ tr1 @ [ReadProgress c f],
        Inl (Error ''Verification operation aborted''))"
    by (intro allI impI, elim conjE) (rule c)
  have D: "\<forall>st. snd ?run = Inr st \<longrightarrow>
      (\<forall>c<n. DevRead c \<in> set (fst ?run)) \<and>
      (\<forall>c f. ReadProgress c f \<in> set (fst ?run) \<longrightarrow> cb_readProgress env c f) \<and>
      (\<exists>tr. Check_read env n =
         ([DevSeek 0, ReadStart 0 n] @ fst ?run @
          (if \<not> fail st then [ReadProgress (n - 1) True] else []) @ ReadFinish # tr,
          dev_write_mbr env))"
    by (intro allI impI) (erule d)
  from A B C D show ?thesis
    by (intro conjI)
qed


lemma read_failed_faulty [simp]: "read_failed faulty_env b \<longleftrightarrow> b = 1"
  by (simp add: read_failed_def faulty_env_def)

lemma cb_faulty [simp]: "cb_readProgress faulty_env b f \<longleftrightarrow> \<not> f"
  by (simp add: faulty_env_def)

lemma read_loop_faulty_2:
  "read_loop faulty_env 2 0 initial_rstate =
     ([DevRead 0, ReadProgress 0 False, DevRead 1, ReadProgress 1 True],
      Inl (Error ''Verification operation aborted''))"
  by (simp add: read_loop.simps)

theorem read_pass_reports_witness:
  "fst (read_loop faulty_env 2 0 initial_rstate) =
     [DevRead 0, ReadProgress 0 False, DevRead 1] @ ReadProgress 1 True # [] \<and>
   read_failed faulty_env 1 \<and> \<not> cb_readProgress faulty_env 1 True \<and>
   Check_read faulty_env 2 =
     ([DevSeek 0, ReadStart 0 2] @ [DevRead 0, ReadProgress 0 False, DevRead 1] @
      [ReadProgress 1 True],
      Inl (Error ''Verification operation aborted''))"
proof -
  have h1: "fst (read_loop faulty_env 2 0 initial_rstate) =
      [DevRead 0, ReadProgress 0 False, DevRead 1] @ ReadProgress 1 True # []"
    by (simp add: read_loop_faulty_2)
  have h2: "\<not> cb_readProgress faulty_env 1 True"
    by simp
  note T = read_pass_reports [of faulty_env 2, THEN conjunct2, THEN conjunct2, THEN conjunct1,
      rule_format, OF conjI [OF h1 h2]]
  from T have "Check_read faulty_env 2 =
     ([DevSeek 0, ReadStart 0 2] @ [DevRead 0, ReadProgress 0 False, DevRead 1] @
      [ReadProgress 1 True],
      Inl (Error ''Verification operation aborted''))"
    by (rule conjunct2)
  with h1 h2 show ?thesis by simp
qed

lemma Check_read_no_writes [simp]: "written_blocks (fst (Check_read env n)) = []"
proof (cases "snd (read_loop env n 0 initial_rstate)")
  case (Inl e)
  then show ?thesis by (simp add: Check_read_aborted)
next
  case (Inr st)
  then show ?thesis by (simp add: Check_read_completed)
qed

lemma reopen_loop_written:
  "reopen_loop env i = Some r \<Longrightarrow> written_blocks (fst r) = []"
proof (induction env i r rule: reopen_loop.raw_induct [rotated, consumes 1, case_names step])
  case (step f env i r)
  then show ?case
    by (auto simp: Let_def split: if_splits sum.splits bind_splits)
qed

lemma reopen_loop_success:
  "\<forall>j < m. (cin_keys env (i + j) = Some (CHR ''y'') \<or> cin_keys env (i + j) = Some (CHR ''Y'')) \<and>
      (\<exists>e. dev_reopen env (i + j) = Inl e) \<Longrightarrow>
   cin_keys env (i + m) = Some (CHR ''y'') \<or> cin_keys env (i + m) = Some (CHR ''Y'') \<Longrightarrow>
   dev_reopen env (i + m) = Inr () \<Longrightarrow>
   reopen_loop env i = Some (concat (replicate (Suc m) [CinKey, DevReopen]), Inr ())"
proof (induction m arbitrary: i)
  case 0
  then show ?case
    by (subst reopen_loop.simps) auto
next
  case (Suc m)
  from Suc.prems(1) have k: "cin_keys env i = Some (CHR ''y'') \<or> cin_keys env i = Some (CHR ''Y'')"
    and "\<exists>e. dev_reopen env i = Inl e"
    by (auto dest: spec [of _ 0])
  then obtain e where e: "dev_reopen env i = Inl e"
    by blast
  have "\<forall>j < m. (cin_keys env (i + 1 + j) = Some (CHR ''y'') \<or>
        cin_keys env (i + 1 + j) = Some (CHR ''Y'')) \<and> (\<exists>e. dev_reopen env (i + 1 + j) = Inl e)"
    using Suc.prems(1) by (auto dest: spec [of _ "Suc _"])
  then have "reopen_loop env (i + 1) =
      Some (concat (replicate (Suc m) [CinKey, DevReopen]), Inr ())"
    using Suc.prems(2,3) by (intro Suc.IH) simp_all
  then show ?case
    using k e by (subst reopen_loop.simps) auto
qed

lemma reopen_loop_decline:
  "\<forall>j < m. (cin_keys env (i + j) = Some (CHR ''y'') \<or> cin_keys env (i + j) = Some (CHR ''Y'')) \<and>
      (\<exists>e. dev_reopen env (i + j) = Inl e) \<Longrightarrow>
   cin_keys env (i + m) \<noteq> Some (CHR ''y'') \<Longrightarrow> cin_keys env (i + m) \<noteq> Some (CHR ''Y'') \<Longrightarrow>
   reopen_loop env i =
     Some (concat (replicate m [CinKey, DevReopen]) @ [CinKey], Inl (Error ''Aborted by user''))"
proof (induction m arbitrary: i)
  case 0
  then show ?case
    by (subst reopen_loop.simps) (auto split: option.splits)
next
  case (Suc m)
  from Suc.prems(1) have k: "cin_keys env i = Some (CHR ''y'') \<or> cin_keys env i = Some (CHR ''Y'')"
    and "\<exists>e. dev_reopen env i = Inl e"
    by (auto dest: spec [of _ 0])
  then obtain e where e: "dev_reopen env i = Inl e"
    by blast
  have "\<forall>j < m. (cin_keys env (i + 1 + j) = Some (CHR ''y'') \<or>
        cin_keys env (i + 1 + j) = Some (CHR ''Y'')) \<and> (\<exists>e. dev_reopen env (i + 1 + j) = Inl e)"
    using Suc.prems(1) by (auto dest: spec [of _ "Suc _"])
  then have "reopen_loop env (i + 1) =
      Some (concat (replicate m [CinKey, DevReopen]) @ [CinKey], Inl (Error ''Aborted by user''))"
    using Suc.prems(2,3) by (intro Suc.IH) simp_all
  then show ?case
    using k e by (subst reopen_loop.simps) auto
qed

lemma reopen_loop_forever:
  assumes "\<forall>j. (cin_keys env j = Some (CHR ''y'') \<or> cin_keys env j = Some (CHR ''Y'')) \<and>
      (\<exists>e. dev_reopen env j = Inl e)"
  shows "reopen_loop env i = None"
proof (rule ccontr)
  assume "reopen_loop env i \<noteq> None"
  then obtain r where "reopen_loop env i = Some r"
    by blast
  then show False
    using assms
  proof (induction env i r rule: reopen_loop.raw_induct [rotated, consumes 1, case_names step])
    case (step f env i r)
    from step(3) obtain e where e: "dev_reopen env i = Inl e"
      by blast
    from step(3) have k: "cin_keys env i = Some (CHR ''y'') \<or> cin_keys env i = Some (CHR ''Y'')"
      by blast
    from step(2) k e have "Option.bind (f env (i + 1)) (\<lambda>r. Some (emit [CinKey, DevReopen] r)) = Some r"
      by (auto simp: Let_def)
    then obtain r' where "f env (i + 1) = Some r'"
      by (auto split: bind_splits)
    then show ?case
      using step(3) by (rule step(1))
  qed
qed


lemma sync_recover_failed:
  "dev_sync env = Inl e \<Longrightarrow>
     sync_recover env = Option.bind (reopen_loop env 0) (\<lambda>r. Some (emit [DevSync, DevClose] r))"
  by (simp add: sync_recover_def)

lemma sync_recover_forever:
  assumes "dev_sync env = Inl e"
    and "\<forall>j. (cin_keys env j = Some (CHR ''y'') \<or> cin_keys env j = Some (CHR ''Y'')) \<and>
      (\<exists>e. dev_reopen env j = Inl e)"
  shows "sync_recover env = None" and "Check_write env n = None \<or> (\<exists>e. snd (write_pass env n) = Inl e)"
  using assms by (auto simp: sync_recover_failed reopen_loop_forever Check_write_def split: sum.splits)

text \<open>
  C9.  When \<^verbatim>\<open>sync()\<close> raises, \<^verbatim>\<open>Check::write\<close> closes the device and enters the loop that
  reads a key and calls \<^verbatim>\<open>reopen()\<close>; no block is written from there on.  Let the user
  answer yes (\<^verbatim>\<open>y\<close> or \<^verbatim>\<open>Y\<close>) in the first \<open>m\<close> rounds while every one of these \<^verbatim>\<open>reopen()\<close>
  calls fails.  If the next answer is yes and that \<^verbatim>\<open>reopen()\<close> succeeds, the loop ends,
  \<^verbatim>\<open>Check::write\<close> returns normally and the run goes on with the read pass: the blocks
  written in the whole run are those of the write pass, once.  If the next answer is
  anything else, or the input has ended, the error ``Aborted by user'' is raised.  Each
  failed \<^verbatim>\<open>reopen()\<close> is followed by another question.  (With a user who always answers
  yes and a \<^verbatim>\<open>reopen()\<close> that always fails the loop never ends: \<open>sync_recover_forever\<close>.)
\<close>

theorem sync_failure_recovery:
  assumes sync: "dev_sync env = Inl e"
    and rounds: "\<forall>j < m. (cin_keys env j = Some (CHR ''y'') \<or> cin_keys env j = Some (CHR ''Y'')) \<and>
      (\<exists>e'. dev_reopen env j = Inl e')"
  shows "(\<forall>r. sync_recover env = Some r \<longrightarrow>
       (\<exists>tr'. fst r = DevSync # DevClose # CinKey # tr') \<and> written_blocks (fst r) = []) \<and>
    ((cin_keys env m = Some (CHR ''y'') \<or> cin_keys env m = Some (CHR ''Y'')) \<and>
       dev_reopen env m = Inr () \<longrightarrow>
         sync_recover env =
           Some ([DevSync, DevClose] @ concat (replicate (Suc m) [CinKey, DevReopen]), Inr ()) \<and>
         (write_pass env (numBlocks_of len) = (tr, Inr ()) \<longrightarrow>
            scan env env' len =
              Some (tr @ [DevSync, DevClose] @ concat (replicate (Suc m) [CinKey, DevReopen]) @
                      fst (Check_read env' (numBlocks_of len)),
                    snd (Check_read env' (numBlocks_of len))) \<and>
            written_blocks (tr @ [DevSync, DevClose] @
                concat (replicate (Suc m) [CinKey, DevReopen]) @
                fst (Check_read env' (numBlocks_of len))) = written_blocks tr)) \<and>
    (cin_keys env m \<noteq> Some (CHR ''y'') \<and> cin_keys env m \<noteq> Some (CHR ''Y'') \<longrightarrow>
       sync_recover env =
         Some ([DevSync, DevClose] @ concat (replicate m [CinKey, DevReopen]) @ [CinKey],
               Inl (Error ''Aborted by user'')) \<and>
       (write_pass env (numBlocks_of len) = (tr, Inr ()) \<longrightarrow>
          scan env env' len =
            Some (tr @ [DevSync, DevClose] @ concat (replicate m [CinKey, DevReopen]) @ [CinKey],
                  Inl (Error ''Aborted by user''))))"
proof -
  have f0: "\<forall>j < m. (cin_keys env (0 + j) = Some (CHR ''y'') \<or> cin_keys env (0 + j) = Some (CHR ''Y'')) \<and>
      (\<exists>e'. dev_reopen env (0 + j) = Inl e')"
    using rounds by simp
  have rec: "sync_recover env =
      Option.bind (reopen_loop env 0) (\<lambda>r. Some (emit [DevSync, DevClose] r))"
    using sync by (rule sync_recover_failed)
  have A: "\<forall>r. sync_recover env = Some r \<longrightarrow>
       (\<exists>tr'. fst r = DevSync # DevClose # CinKey # tr') \<and> written_blocks (fst r) = []"
  proof (intro allI impI)
    fix r
    assume "sync_recover env = Some r"
    then obtain r' where r': "reopen_loop env 0 = Some r'" and r: "r = emit [DevSync, DevClose] r'"
      by (auto simp: rec split: bind_splits)
    have "\<exists>tr'. fst r' = CinKey # tr'"
      using r' by (subst (asm) reopen_loop.simps) (auto simp: Let_def split: if_splits sum.splits bind_splits)
    then show "(\<exists>tr'. fst r = DevSync # DevClose # CinKey # tr') \<and> written_blocks (fst r) = []"
      using reopen_loop_written [OF r'] r by auto
  qed
  have ok: "sync_recover env =
      Some ([DevSync, DevClose] @ concat (replicate (Suc m) [CinKey, DevReopen]), Inr ())"
    if "cin_keys env m = Some (CHR ''y'') \<or> cin_keys env m = Some (CHR ''Y'')"
      "dev_reopen env m = Inr ()"
    using reopen_loop_success [OF f0] that by (simp add: rec)
  have ok_scan: "scan env env' len =
      Some (tr @ [DevSync, DevClose] @ concat (replicate (Suc m) [CinKey, DevReopen]) @
              fst (Check_read env' (numBlocks_of len)),
            snd (Check_read env' (numBlocks_of len))) \<and>
      written_blocks (tr @ [DevSync, DevClose] @ concat (replicate (Suc m) [CinKey, DevReopen]) @
        fst (Check_read env' (numBlocks_of len))) = written_blocks tr"
    if "cin_keys env m = Some (CHR ''y'') \<or> cin_keys env m = Some (CHR ''Y'')"
      "dev_reopen env m = Inr ()" "write_pass env (numBlocks_of len) = (tr, Inr ())"
    using ok [OF that(1,2)] that(3)
    by (simp add: scan_def Check_write_def emit_def)
  have no: "sync_recover env =
      Some ([DevSync, DevClose] @ concat (replicate m [CinKey, DevReopen]) @ [CinKey],
            Inl (Error ''Aborted by user''))"
    if "cin_keys env m \<noteq> Some (CHR ''y'')" "cin_keys env m \<noteq> Some (CHR ''Y'')"
    using reopen_loop_decline [OF f0] that by (simp add: rec)
  have no_scan: "scan env env' len =
      Some (tr @ [DevSync, DevClose] @ concat (replicate m [CinKey, DevReopen]) @ [CinKey],
            Inl (Error ''Aborted by user''))"
    if "cin_keys env m \<noteq> Some (CHR ''y'')" "cin_keys env m \<noteq> Some (CHR ''Y'')"
      "write_pass env (numBlocks_of len) = (tr, Inr ())"
    using no [OF that(1,2)] that(3)
    by (simp add: scan_def Check_write_def emit_def)
  have B: "(cin_keys env m = Some (CHR ''y'') \<or> cin_keys env m = Some (CHR ''Y'')) \<and>
       dev_reopen env m = Inr () \<longrightarrow>
         sync_recover env =
           Some ([DevSync, DevClose] @ concat (replicate (Suc m) [CinKey, DevReopen]), Inr ()) \<and>
         (write_pass env (numBlocks_of len) = (tr, Inr ()) \<longrightarrow>
            scan env env' len =
              Some (tr @ [DevSync, DevClose] @ concat (replicate (Suc m) [CinKey, DevReopen]) @
                      fst (Check_read env' (numBlocks_of len)),
                    snd (Check_read env' (numBlocks_of len))) \<and>
            written_blocks (tr @ [DevSync, DevClose] @
                concat (replicate (Suc m) [CinKey, DevReopen]) @
                fst (Check_read env' (numBlocks_of len))) = written_blocks tr)"
  proof (rule impI, elim conjE)
    assume k: "cin_keys env m = Some (CHR ''y'') \<or> cin_keys env m = Some (CHR ''Y'')"
      and r: "dev_reopen env m = Inr ()"
    show "sync_recover env =
           Some ([DevSync, DevClose] @ concat (replicate (Suc m) [CinKey, DevReopen]), Inr ()) \<and>
         (write_pass env (numBlocks_of len) = (tr, Inr ()) \<longrightarrow>
            scan env env' len =
              Some (tr @ [DevSync, DevClose] @ concat (replicate (Suc m) [CinKey, DevReopen]) @
                      fst (Check_read env' (numBlocks_of len)),
                    snd (Check_read env' (numBlocks_of len))) \<and>
            written_blocks (tr @ [DevSync, DevClose] @
                concat (replicate (Suc m) [CinKey, DevReopen]) @
                fst (Check_read env' (numBlocks_of len))) = written_blocks tr)"
    proof (rule conjI)
      show "sync_recover env =
           Some ([DevSync, DevClose] @ concat (replicate (Suc m) [CinKey, DevReopen]), Inr ())"
        using k r by (rule ok)
    next
      show "write_pass env (numBlocks_of len) = (tr, Inr ()) \<longrightarrow>
            scan env env' len =
              Some (tr @ [DevSync, DevClose] @ concat (replicate (Suc m) [CinKey, DevReopen]) @
                      fst (Check_read env' (numBlocks_of len)),
                    snd (Check_read env' (numBlocks_of len))) \<and>
            written_blocks (tr @ [DevSync, DevClose] @
                concat (replicate (Suc m) [CinKey, DevReopen]) @
                fst (Check_read env' (numBlocks_of len))) = written_blocks tr"
        using k r by (rule impI [OF ok_scan])
    qed
  qed
  have C: "cin_keys env m \<noteq> Some (CHR ''y'') \<and> cin_keys env m \<noteq> Some (CHR ''Y'') \<longrightarrow>
       sync_recover env =
         Some ([DevSync, DevClose] @ concat (replicate m [CinKey, DevReopen]) @ [CinKey],
               Inl (Error ''Aborted by user'')) \<and>
       (write_pass env (numBlocks_of len) = (tr, Inr ()) \<longrightarrow>
          scan env env' len =
            Some (tr @ [DevSync, DevClose] @ concat (replicate m [CinKey, DevReopen]) @ [CinKey],
                  Inl (Error ''Aborted by user'')))"
  proof (rule impI, elim conjE)
    assume k: "cin_keys env m \<noteq> Some (CHR ''y'')" "cin_keys env m \<noteq> Some (CHR ''Y'')"
    show "sync_recover env =
         Some ([DevSync, DevClose] @ concat (replicate m [CinKey, DevReopen]) @ [CinKey],
               Inl (Error ''Aborted by user'')) \<and>
       (write_pass env (numBlocks_of len) = (tr, Inr ()) \<longrightarrow>
          scan env env' len =
            Some (tr @ [DevSync, DevClose] @ concat (replicate m [CinKey, DevReopen]) @ [CinKey],
                  Inl (Error ''Aborted by user'')))"
    proof (rule conjI)
      show "sync_recover env =
         Some ([DevSync, DevClose] @ concat (replicate m [CinKey, DevReopen]) @ [CinKey],
               Inl (Error ''Aborted by user''))"
        using k by (rule no)
    next
      show "write_pass env (numBlocks_of len) = (tr, Inr ()) \<longrightarrow>
          scan env env' len =
            Some (tr @ [DevSync, DevClose] @ concat (replicate m [CinKey, DevReopen]) @ [CinKey],
                  Inl (Error ''Aborted by user''))"
        using k by (rule impI [OF no_scan])
    qed
  qed
  from A B C show ?thesis
    by (intro conjI)
qed


lemma write_pass_faulty_2:
  "write_pass faulty_env 2 =
     ([DevSeek 0, DevRead 0, ResumeWrite, DevSeek 0, WriteStart 0 2, WriteProgress 0,
       DevWrite 0, DevWrite 1, WriteProgress 1, WriteFinish],
      Inr ())"
  by (simp add: write_pass_def faulty_env_def block_matches_pattern write_loop.simps
      DATA_BLOCK_SIZE_def)

theorem sync_failure_recovery_witness:
  "dev_sync faulty_env = Inl (Error ''Input/output error'') \<and>
   cin_keys faulty_env 0 = Some (CHR ''y'') \<and>
   dev_reopen faulty_env 0 = Inl (Error ''No such device'') \<and>
   cin_keys faulty_env 1 = Some (CHR ''Y'') \<and>
   dev_reopen faulty_env 1 = Inr () \<and>
   sync_recover faulty_env =
     Some ([DevSync, DevClose, CinKey, DevReopen, CinKey, DevReopen], Inr ()) \<and>
   (\<exists>run. scan faulty_env good_env 8192 = Some run \<and> written_blocks (fst run) = [0, 1])"
proof -
  have h1: "dev_sync faulty_env = Inl (Error ''Input/output error'')"
    by (simp add: faulty_env_def)
  have h2: "\<forall>j < 1. (cin_keys faulty_env j = Some (CHR ''y'') \<or>
      cin_keys faulty_env j = Some (CHR ''Y'')) \<and> (\<exists>e'. dev_reopen faulty_env j = Inl e')"
    by (simp add: faulty_env_def)
  have k: "(cin_keys faulty_env 1 = Some (CHR ''y'') \<or> cin_keys faulty_env 1 = Some (CHR ''Y'')) \<and>
      dev_reopen faulty_env 1 = Inr ()"
    by (simp add: faulty_env_def)
  have w: "write_pass faulty_env (numBlocks_of 8192) =
      ([DevSeek 0, DevRead 0, ResumeWrite, DevSeek 0, WriteStart 0 2, WriteProgress 0,
        DevWrite 0, DevWrite 1, WriteProgress 1, WriteFinish], Inr ())"
    by (simp add: numBlocks_of_def DATA_BLOCK_SIZE_def write_pass_faulty_2)
  note T = sync_failure_recovery [OF h1 h2, where len = 8192 and env' = good_env,
      THEN conjunct2, THEN conjunct1, rule_format, OF k]
  from T have r: "sync_recover faulty_env =
      Some ([DevSync, DevClose] @ concat (replicate (Suc 1) [CinKey, DevReopen]), Inr ())"
    by (rule conjunct1)
  note S = T [THEN conjunct2, rule_format, OF w]
  from S have sc: "scan faulty_env good_env 8192 =
      Some ([DevSeek 0, DevRead 0, ResumeWrite, DevSeek 0, WriteStart 0 2, WriteProgress 0,
             DevWrite 0, DevWrite 1, WriteProgress 1, WriteFinish] @
            [DevSync, DevClose] @ concat (replicate (Suc 1) [CinKey, DevReopen]) @
            fst (Check_read good_env (numBlocks_of 8192)),
            snd (Check_read good_env (numBlocks_of 8192)))"
    by (rule conjunct1)
  have "\<exists>run. scan faulty_env good_env 8192 = Some run \<and> written_blocks (fst run) = [0, 1]"
    unfolding sc by simp
  moreover have "sync_recover faulty_env =
      Some ([DevSync, DevClose, CinKey, DevReopen, CinKey, DevReopen], Inr ())"
    using r by simp
  moreover have "cin_keys faulty_env 0 = Some (CHR ''y'')"
    "dev_reopen faulty_env 0 = Inl (Error ''No such device'')"
    "cin_keys faulty_env 1 = Some (CHR ''Y'')" "dev_reopen faulty_env 1 = Inr ()"
    by (simp_all add: faulty_env_def)
  ultimately show ?thesis
    using h1 by (intro conjI)
qed

text \<open>
  The resume search on a device whose written blocks are exactly those below \<open>k\<close>.  While
  \<^verbatim>\<open>remainingBlocks\<close> is a power of two every halving is exact, the interval
  \<open>startBlock - remainingBlocks < k\<close> is kept, and the search ends on a block \<open>\<le> k\<close>.
\<close>

lemma resume_loop_pow2:
  assumes dev: "\<And>b. \<exists>buf. dev_read env b = Inr buf \<and> (block_matches buf b \<longleftrightarrow> b < k)"
  shows "unat r = 2 ^ m \<Longrightarrow> unat r \<le> unat s \<Longrightarrow> unat s + unat r < 2 ^ 64 \<Longrightarrow>
     unat s - unat r < unat k \<Longrightarrow>
     \<exists>s'. snd (resume_loop env r s) = Inr s' \<and> s' \<le> k"
proof (induction m arbitrary: r s)
  case 0
  then have "\<not> 1 < r"
    by (simp add: word_less_nat_alt)
  moreover have "s \<le> k"
    using 0 by (simp add: word_le_nat_alt)
  ultimately show ?case
    by (simp add: resume_loop.simps [of env r s])
next
  case (Suc m)
  let ?h = "r div 2"
  have h: "unat ?h = 2 ^ m"
    using Suc.prems(1) by (simp add: unat_div)
  have r2: "unat r = 2 * unat ?h"
    unfolding Suc.prems(1) h by simp
  have p: "(1 :: nat) \<le> 2 ^ m"
    by simp
  have "1 < unat r"
    using p unfolding Suc.prems(1) power_Suc by linarith
  then have lt: "1 < r"
    by (simp add: word_less_nat_alt)
  obtain buf where buf: "dev_read env s = Inr buf" and mt: "block_matches buf s \<longleftrightarrow> s < k"
    using dev [of s] by blast
  show ?case
  proof (cases "s < k")
    case True
    have "unat s + unat ?h < 2 ^ LENGTH(64)"
      using Suc.prems(3) r2 by simp
    then have u: "unat (s + ?h) = unat s + unat ?h"
      by (simp only: unat_add_lem)
    have i2: "unat ?h \<le> unat (s + ?h)"
      unfolding u by linarith
    have i3: "unat (s + ?h) + unat ?h < 2 ^ 64"
      unfolding u using Suc.prems(3) r2 by linarith
    have i4: "unat (s + ?h) - unat ?h < unat k"
      unfolding u using True by (simp add: word_less_nat_alt)
    have "\<exists>s'. snd (resume_loop env ?h (s + ?h)) = Inr s' \<and> s' \<le> k"
      using h i2 i3 i4 by (rule Suc.IH)
    then show ?thesis
      using lt buf mt True by (simp add: resume_loop.simps [of env r s])
  next
    case False
    have hs: "unat ?h \<le> unat s"
      using Suc.prems(2) r2 by linarith
    then have u: "unat (s - ?h) = unat s - unat ?h"
      by (simp only: unat_sub word_le_nat_alt)
    have i2: "unat ?h \<le> unat (s - ?h)"
      unfolding u using Suc.prems(2) r2 by linarith
    have i3: "unat (s - ?h) + unat ?h < 2 ^ 64"
      unfolding u using Suc.prems(3) hs by linarith
    have i4: "unat (s - ?h) - unat ?h < unat k"
      unfolding u using Suc.prems(4) r2 by linarith
    have "\<exists>s'. snd (resume_loop env ?h (s - ?h)) = Inr s' \<and> s' \<le> k"
      using h i2 i3 i4 by (rule Suc.IH)
    then show ?thesis
      using lt buf mt False by (simp add: resume_loop.simps [of env r s])
  qed
qed

lemma resume_search_pow2:
  assumes dev: "\<And>b. \<exists>buf. dev_read env b = Inr buf \<and> (block_matches buf b \<longleftrightarrow> b < k)"
    and k: "0 < k" and n: "unat (numBlocks div 2) = 2 ^ m"
  shows "\<exists>s'. snd (resume_loop env (numBlocks div 2) (numBlocks div 2)) = Inr s' \<and> s' \<le> k"
proof -
  have "unat (numBlocks div 2) + unat (numBlocks div 2) < 2 ^ 64"
  proof -
    have "unat (numBlocks div 2) + unat (numBlocks div 2) \<le> unat numBlocks"
      by (simp add: unat_div)
    also have "\<dots> < 2 ^ 64"
      using unsigned_less [of numBlocks, where ?'a = nat] by simp
    finally show ?thesis .
  qed
  moreover have "0 < unat k"
    using k by (simp add: word_less_nat_alt)
  ultimately show ?thesis
    using n by (intro resume_loop_pow2 [OF dev, of _ m]) simp_all
qed

text \<open>
  C2.  The claim asks that the resume search ends on a start block \<open>\<le> k\<close> when exactly the
  blocks below \<open>k\<close> are written.  On a device of 6 blocks with only block 0 written
  (\<open>k = 1\<close>) and the user agreeing to resume, the search starts with
  \<open>remainingBlocks = startBlock = 3\<close>, probes block 3, which does not match, halves
  \<open>remainingBlocks\<close> to 1 and ends on start block \<open>3 - 1 = 2\<close>: the write pass then writes
  blocks 2 to 5 and never block 1.  On 1000 blocks with \<open>k = 251\<close> it ends on block 256.
\<close>

theorem resume_search_overshoots:
  "(case dev_read (interrupted_env 1) b of Inl e \<Rightarrow> False | Inr buf \<Rightarrow> block_matches buf b) = (b < 1) \<and>
   cb_resumeWrite (interrupted_env 1) \<and>
   resume_loop (interrupted_env 1) (6 div 2) (6 div 2) = ([DevSeek 12288, DevRead 3], Inr 2) \<and>
   write_pass (interrupted_env 1) 6 =
     ([DevSeek 0, DevRead 0, ResumeWrite, DevSeek 12288, DevRead 3, DevSeek 8192,
       WriteStart 2 6, DevWrite 2, DevWrite 3, DevWrite 4, DevWrite 5, WriteProgress 5,
       WriteFinish],
      Inr ()) \<and>
   written_blocks (fst (write_pass (interrupted_env 1) 6)) = [2, 3, 4, 5] \<and>
   snd (resume_loop (interrupted_env 251) (1000 div 2) (1000 div 2)) = Inr 256"
proof -
  have m: "(case dev_read (interrupted_env 1) b of Inl e \<Rightarrow> False | Inr buf \<Rightarrow> block_matches buf b)
      = (b < 1)"
    by (simp add: interrupted_env_def block_matches_pattern)
  have r: "resume_loop (interrupted_env 1) (6 div 2) (6 div 2) = ([DevSeek 12288, DevRead 3], Inr 2)"
    by (simp add: resume_loop.simps interrupted_env_def block_matches_pattern DATA_BLOCK_SIZE_def)
  have w: "write_pass (interrupted_env 1) 6 =
     ([DevSeek 0, DevRead 0, ResumeWrite, DevSeek 12288, DevRead 3, DevSeek 8192,
       WriteStart 2 6, DevWrite 2, DevWrite 3, DevWrite 4, DevWrite 5, WriteProgress 5,
       WriteFinish],
      Inr ())"
    by (simp add: write_pass_def resume_loop.simps write_loop.simps interrupted_env_def
        block_matches_pattern DATA_BLOCK_SIZE_def)
  have r': "snd (resume_loop (interrupted_env 251) (1000 div 2) (1000 div 2)) = Inr 256"
    by (simp add: resume_loop.simps interrupted_env_def block_matches_pattern DATA_BLOCK_SIZE_def)
  show ?thesis
    by (simp only: m r w r') (simp add: interrupted_env_def)
qed

end
